theory Spec2Isabelle
  imports Main "HOL-Library.Multiset"
begin

section \<open>Parsed entries and the root-identification pass (word\_parser.py)\<close>

text \<open>
  The dataclass \<open>Word\<close> of word\_parser.py. Strings are byte lists (UTF-8); the field
  \<open>definition\<close> of the source is written \<open>definition'\<close> because the plain name is a
  keyword here.
\<close>

record Word =
  word :: string
  phonetic :: string
  pos :: string
  definition' :: string
  page :: string
  grade :: string
  difficulty :: int
  is_phrase :: bool
  root :: string

text \<open>
  \<open>str.lower()\<close> on the ASCII letters; every other byte is left as it is (the headwords
  of the root table and of the word list are plain Latin words).
\<close>

definition lower_char :: "char \<Rightarrow> char" where
  "lower_char c =
     (case map_of (zip ''ABCDEFGHIJKLMNOPQRSTUVWXYZ'' ''abcdefghijklmnopqrstuvwxyz'') c of
        None \<Rightarrow> c
      | Some d \<Rightarrow> d)"

definition lower :: "string \<Rightarrow> string" where
  "lower s = map lower_char s"

text \<open>\<open>WordParser.COMMON_ROOTS\<close>, in the order the dictionary literal defines it.\<close>

definition COMMON_ROOTS :: "(string \<times> string list) list" where
  "COMMON_ROOTS =
    [(''act'', [''act'', ''action'', ''active'', ''activity'', ''actor'', ''actress'',
               ''actually'', ''react'', ''interaction'']),
     (''port'', [''port'', ''import'', ''export'', ''transport'', ''portable'', ''report'',
                ''support'', ''airport'']),
     (''dict'', [''dictionary'', ''predict'', ''contradict'', ''indicate'']),
     (''ject'', [''project'', ''reject'', ''inject'', ''object'', ''subject'']),
     (''spect'', [''respect'', ''expect'', ''inspect'', ''aspect'', ''spectator'']),
     (''struct'', [''structure'', ''construct'', ''instruct'', ''destroy'']),
     (''vis/vid'', [''visible'', ''visit'', ''vision'', ''video'', ''provide'', ''divide'']),
     (''aud'', [''audience'', ''audio'', ''auditorium'']),
     (''scrib/script'', [''describe'', ''subscribe'', ''script'', ''prescription'']),
     (''duc/duct'', [''produce'', ''reduce'', ''introduce'', ''conduct'', ''educate'']),
     (''form'', [''form'', ''inform'', ''perform'', ''transform'', ''uniform'']),
     (''mit/mis'', [''permit'', ''submit'', ''admit'', ''promise'', ''mission'']),
     (''vent/ven'', [''event'', ''prevent'', ''invent'', ''adventure'', ''avenue'']),
     (''tend/tens'', [''attend'', ''extend'', ''intend'', ''tension'']),
     (''cess/ced'', [''process'', ''success'', ''access'', ''proceed'']),
     (''press'', [''express'', ''impress'', ''pressure'', ''depress'']),
     (''serve'', [''serve'', ''reserve'', ''preserve'', ''observe'', ''service'']),
     (''sist'', [''assist'', ''consist'', ''insist'', ''resist'', ''exist'']),
     (''cap/cep/ceiv'', [''accept'', ''receive'', ''capable'', ''capture'']),
     (''cred'', [''credit'', ''incredible'', ''credible''])]"

text \<open>\<open>root.split('/')[0]\<close>: the text before the first slash.\<close>

definition primary_label :: "string \<Rightarrow> string" where
  "primary_label rt = takeWhile (\<lambda>c. c \<noteq> CHR ''/'') rt"

text \<open>
  \<open>word_lower_map = {w.word.lower(): w for w in self.words}\<close>. The dictionary holds
  references to the entries, so the model maps a key to the position of the entry in the
  list; a later entry with the same lower-cased headword replaces the earlier one.
\<close>

fun word_lower_map_from :: "nat \<Rightarrow> Word list \<Rightarrow> (string \<rightharpoonup> nat) \<Rightarrow> (string \<rightharpoonup> nat)" where
  "word_lower_map_from i [] m = m"
| "word_lower_map_from i (w # ws) m = word_lower_map_from (Suc i) ws (m(lower (word w) \<mapsto> i))"

definition word_lower_map :: "Word list \<Rightarrow> (string \<rightharpoonup> nat)" where
  "word_lower_map ws = word_lower_map_from 0 ws Map.empty"

text \<open>
  The body of the inner loop: \<open>if word_text.lower() in word_lower_map:
  word_lower_map[word_text.lower()].root = root.split('/')[0]\<close>.
\<close>

definition assign_root :: "(string \<rightharpoonup> nat) \<Rightarrow> string \<Rightarrow> string \<Rightarrow> Word list \<Rightarrow> Word list" where
  "assign_root m rt word_text ws =
     (case m (lower word_text) of
        None \<Rightarrow> ws
      | Some i \<Rightarrow> ws[i := (ws ! i)\<lparr>root := primary_label rt\<rparr>])"

definition identify_roots_in :: "(string \<times> string list) list \<Rightarrow> Word list \<Rightarrow> Word list" where
  "identify_roots_in table ws =
     (let m = word_lower_map ws
      in fold (\<lambda>(rt, root_words) acc. fold (assign_root m rt) root_words acc) table ws)"

definition identify_roots :: "Word list \<Rightarrow> Word list" where
  "identify_roots ws = identify_roots_in COMMON_ROOTS ws"

text \<open>An entry as \<open>_parse_line\<close> builds it: \<open>root\<close> is left at its default.\<close>

definition parsed :: "string \<Rightarrow> string \<Rightarrow> Word" where
  "parsed w g = \<lparr>word = w, phonetic = [], pos = [], definition' = [], page = [], grade = g,
                 difficulty = 2, is_phrase = False, root = []\<rparr>"


section \<open>The property graph held by the store\<close>

text \<open>
  Property values as the queries of this repository use them. A property that a node
  does not carry reads as \<open>VNull\<close>, as in Cypher.
\<close>

datatype val = VNull | VStr string | VInt int | VBool bool | VTime nat

datatype label = Word | Grade | Root | User | Prize | Floor

datatype rel = BELONGS_TO | HAS_ROOT | SAME_ROOT

datatype error = ValueError | KeyError | ServiceUnavailable | ClientError

type_synonym props = "string \<Rightarrow> val"

record node =
  nid :: nat
  nprops :: props

record edge =
  esrc :: nat
  edst :: nat
  eprops :: props

text \<open>
  Every node of the schema carries one label, so the store keeps its nodes by label and
  its relationships by type, each in creation order; \<open>next_id\<close> is the identifier the
  store gives to the next node it creates (\<open>id(n)\<close> in the queries).
\<close>

record graph =
  nodes :: "label \<Rightarrow> node list"
  edges :: "rel \<Rightarrow> edge list"
  next_id :: nat

definition no_props :: props where
  "no_props = (\<lambda>k. VNull)"

text \<open>The items of a \<open>SET\<close> clause, applied from left to right.\<close>

definition set_all :: "(string \<times> val) list \<Rightarrow> props \<Rightarrow> props" where
  "set_all kvs p = fold (\<lambda>(k, v) q. q(k := v)) kvs p"

definition props_of :: "(string \<times> val) list \<Rightarrow> props" where
  "props_of kvs = set_all kvs no_props"

text \<open>\<open>MATCH (n:lbl {key: v})\<close>.\<close>

definition match_nodes :: "label \<Rightarrow> string \<Rightarrow> val \<Rightarrow> graph \<Rightarrow> node list" where
  "match_nodes lbl key v g = filter (\<lambda>n. nprops n key = v) (nodes g lbl)"

text \<open>
  \<open>MERGE (n:lbl {key: v})\<close>: when no node of that label has the key value, one is created
  with that property alone. (The key values the program merges on are strings and
  integers built by the program, never null.)
\<close>

definition merge_node :: "label \<Rightarrow> string \<Rightarrow> val \<Rightarrow> graph \<Rightarrow> graph" where
  "merge_node lbl key v g =
     (if \<exists>n \<in> set (nodes g lbl). nprops n key = v then g
      else g\<lparr>nodes := (nodes g)(lbl := nodes g lbl @ [\<lparr>nid = next_id g, nprops = no_props(key := v)\<rparr>]),
             next_id := Suc (next_id g)\<rparr>)"

text \<open>The \<open>SET\<close> that follows a \<open>MERGE\<close> or \<open>MATCH\<close>: it applies to every node bound.\<close>

definition apply_set :: "string \<Rightarrow> val \<Rightarrow> (props \<Rightarrow> props) \<Rightarrow> node \<Rightarrow> node" where
  "apply_set key v upd n = (if nprops n key = v then n\<lparr>nprops := upd (nprops n)\<rparr> else n)"

definition set_where :: "label \<Rightarrow> string \<Rightarrow> val \<Rightarrow> (props \<Rightarrow> props) \<Rightarrow> graph \<Rightarrow> graph" where
  "set_where lbl key v upd g =
     g\<lparr>nodes := (nodes g)(lbl := map (apply_set key v upd) (nodes g lbl))\<rparr>"

definition upsert :: "label \<Rightarrow> string \<Rightarrow> val \<Rightarrow> (props \<Rightarrow> props) \<Rightarrow> graph \<Rightarrow> graph" where
  "upsert lbl key v upd g = set_where lbl key v upd (merge_node lbl key v g)"

text \<open>
  \<open>MERGE (a)-[:t {kvs}]->(b)\<close> for bound nodes \<open>a\<close> and \<open>b\<close>: a relationship is created
  unless one of that type with those property values already joins them in that direction.
\<close>

definition merge_edge :: "rel \<Rightarrow> nat \<Rightarrow> nat \<Rightarrow> (string \<times> val) list \<Rightarrow> graph \<Rightarrow> graph" where
  "merge_edge t a b kvs g =
     (if \<exists>e \<in> set (edges g t). esrc e = a \<and> edst e = b \<and> (\<forall>(k, v) \<in> set kvs. eprops e k = v)
      then g
      else g\<lparr>edges := (edges g)(t := edges g t @ [\<lparr>esrc = a, edst = b, eprops = props_of kvs\<rparr>])\<rparr>)"

section \<open>The loader (neo4j\_import.py)\<close>

text \<open>\<open>clear_database\<close>: \<open>MATCH (n) DETACH DELETE n\<close>.\<close>

definition clear_database :: "graph \<Rightarrow> graph" where
  "clear_database g = g\<lparr>nodes := (\<lambda>l. []), edges := (\<lambda>t. [])\<rparr>"

text \<open>The grade names are Chinese; they are written as their UTF-8 bytes.\<close>

definition grade_7a :: string where
  "grade_7a = [CHR ''7'', CHR 0xE5, CHR 0xB9, CHR 0xB4, CHR 0xE7, CHR 0xBA, CHR 0xA7,
               CHR 0xE4, CHR 0xB8, CHR 0x8A, CHR 0xE5, CHR 0x86, CHR 0x8C]"

definition grade_7b :: string where
  "grade_7b = [CHR ''7'', CHR 0xE5, CHR 0xB9, CHR 0xB4, CHR 0xE7, CHR 0xBA, CHR 0xA7,
               CHR 0xE4, CHR 0xB8, CHR 0x8B, CHR 0xE5, CHR 0x86, CHR 0x8C]"

definition grade_8a :: string where
  "grade_8a = [CHR ''8'', CHR 0xE5, CHR 0xB9, CHR 0xB4, CHR 0xE7, CHR 0xBA, CHR 0xA7,
               CHR 0xE4, CHR 0xB8, CHR 0x8A, CHR 0xE5, CHR 0x86, CHR 0x8C]"

definition grade_8b :: string where
  "grade_8b = [CHR ''8'', CHR 0xE5, CHR 0xB9, CHR 0xB4, CHR 0xE7, CHR 0xBA, CHR 0xA7,
               CHR 0xE4, CHR 0xB8, CHR 0x8B, CHR 0xE5, CHR 0x86, CHR 0x8C]"

definition grade_9 :: string where
  "grade_9 = [CHR ''9'', CHR 0xE5, CHR 0xB9, CHR 0xB4, CHR 0xE7, CHR 0xBA, CHR 0xA7]"

text \<open>The list \<open>grades\<close> of \<open>import_grades\<close>: name, level, floor\_start, floor\_end.\<close>

definition grades_table :: "(string \<times> int \<times> int \<times> int) list" where
  "grades_table =
     [(grade_7a, 1, 1, 2), (grade_7b, 2, 2, 3), (grade_8a, 3, 4, 5), (grade_8b, 4, 5, 6),
      (grade_9, 5, 7, 9)]"

definition grade_row :: "string \<times> int \<times> int \<times> int \<Rightarrow> graph \<Rightarrow> graph" where
  "grade_row r g =
     (case r of (name, level, fs, fe) \<Rightarrow>
        upsert Grade ''name'' (VStr name)
          (set_all [(''level'', VInt level), (''floor_start'', VInt fs), (''floor_end'', VInt fe)]) g)"

definition import_grades :: "graph \<Rightarrow> graph" where
  "import_grades g = fold grade_row grades_table g"

text \<open>
  \<open>import_roots\<close>: empty names are dropped; with nothing left the method returns before
  it runs a query.
\<close>

definition root_row :: "string \<Rightarrow> graph \<Rightarrow> graph" where
  "root_row r g = upsert Root ''name'' (VStr r) id g"

definition import_roots :: "string list \<Rightarrow> graph \<Rightarrow> graph" where
  "import_roots roots g =
     (let root_data = filter (\<lambda>r. r \<noteq> []) roots
      in if root_data = [] then g else fold root_row root_data g)"

text \<open>
  \<open>WordParser.get_all_roots\<close>: \<open>list(set(w.root for w in self.words if w.root))\<close>. The
  order of a Python set is not fixed; the model lists the roots in order of first
  occurrence.
\<close>

definition get_all_roots_of :: "Word list \<Rightarrow> string list" where
  "get_all_roots_of ws = remdups (map root (filter (\<lambda>w. root w \<noteq> []) ws))"

text \<open>The rows \<open>word_data[i:i + batch_size] for i in range(0, len(word_data), batch_size)\<close>
  for a positive step.\<close>

function batches :: "nat \<Rightarrow> 'a list \<Rightarrow> 'a list list" where
  "batches k xs = (if k = 0 \<or> xs = [] then [] else take k xs # batches k (drop k xs))"
  by pat_completeness auto
termination
  by (relation "measure (\<lambda>(k, xs). length xs)") auto

declare batches.simps [simp del]

text \<open>\<open>create_word_query\<close>, for one row of \<open>UNWIND $words AS w\<close>.\<close>

definition word_sets :: "Word \<Rightarrow> (string \<times> val) list" where
  "word_sets w =
     [(''phonetic'', VStr (phonetic w)), (''pos'', VStr (pos w)),
      (''definition'', VStr (definition' w)), (''page'', VStr (page w)),
      (''difficulty'', VInt (difficulty w)), (''is_phrase'', VBool (is_phrase w)),
      (''mastered_count'', VInt 0), (''wrong_count'', VInt 0)]"

definition create_word_row :: "Word \<Rightarrow> graph \<Rightarrow> graph" where
  "create_word_row w g = upsert Word ''word'' (VStr (word w)) (set_all (word_sets w)) g"

text \<open>\<open>grade_relation_query\<close>, for one row: every matched word is joined to every matched
  grade.\<close>

definition grade_relation_row :: "Word \<Rightarrow> graph \<Rightarrow> graph" where
  "grade_relation_row w g =
     fold (\<lambda>(a, b). merge_edge BELONGS_TO (nid a) (nid b) [])
       [(a, b). a \<leftarrow> match_nodes Word ''word'' (VStr (word w)) g,
                b \<leftarrow> match_nodes Grade ''name'' (VStr (grade w)) g] g"

text \<open>\<open>root_relation_query\<close>, for one row, with its guard \<open>w.root <> ''\<close>.\<close>

definition root_relation_row :: "Word \<Rightarrow> graph \<Rightarrow> graph" where
  "root_relation_row w g =
     (if root w = [] then g
      else fold (\<lambda>(a, b). merge_edge HAS_ROOT (nid a) (nid b) [])
             [(a, b). a \<leftarrow> match_nodes Word ''word'' (VStr (word w)) g,
                      b \<leftarrow> match_nodes Root ''name'' (VStr (root w)) g] g)"

text \<open>
  \<open>import_words\<close>. \<open>range\<close> raises \<open>ValueError\<close> for a step of zero and is empty for a
  negative one; the root relations are created by one query over all entries that have a
  root.
\<close>

definition import_words :: "Word list \<Rightarrow> int \<Rightarrow> graph \<Rightarrow> error + graph" where
  "import_words words batch_size g =
     (if batch_size = 0 then Inl ValueError
      else
        let bs = (if batch_size < 0 then [] else batches (nat batch_size) words);
            g1 = fold (\<lambda>batch. fold create_word_row batch) bs g;
            g2 = fold (\<lambda>batch. fold grade_relation_row batch) bs g1;
            words_with_root = filter (\<lambda>w. root w \<noteq> []) words
        in Inr (if words_with_root = [] then g2 else fold root_relation_row words_with_root g2))"

text \<open>
  \<open>create_same_root_relations\<close>. The pattern binds one row for each pair of
  \<open>HAS_ROOT\<close> relationships that end in the same root; \<open>id(w1) < id(w2)\<close> keeps one
  direction of each pair. A \<open>MERGE\<close> on a null property value is rejected by the store,
  which then leaves the graph as it was.
\<close>

definition same_root_rows :: "graph \<Rightarrow> (nat \<times> nat \<times> val) list" where
  "same_root_rows g =
     [(nid w1, nid w2, nprops r ''name'').
        e1 \<leftarrow> edges g HAS_ROOT,
        w1 \<leftarrow> filter (\<lambda>n. nid n = esrc e1) (nodes g Word),
        r \<leftarrow> filter (\<lambda>n. nid n = edst e1) (nodes g Root),
        e2 \<leftarrow> filter (\<lambda>e. edst e = edst e1) (edges g HAS_ROOT),
        w2 \<leftarrow> filter (\<lambda>n. nid n = esrc e2) (nodes g Word),
        nid w1 < nid w2]"

definition same_root_row :: "nat \<times> nat \<times> val \<Rightarrow> graph \<Rightarrow> graph" where
  "same_root_row r g = (case r of (a, b, name) \<Rightarrow> merge_edge SAME_ROOT a b [(''root'', name)] g)"

definition create_same_root_relations :: "graph \<Rightarrow> error + graph" where
  "create_same_root_relations g =
     (let rows = same_root_rows g
      in if \<exists>(a, b, name) \<in> set rows. name = VNull then Inl ClientError
         else Inr (fold same_root_row rows g))"

text \<open>\<open>create_difficulty_floor_mapping\<close>.\<close>

definition floor_row :: "int \<Rightarrow> graph \<Rightarrow> graph" where
  "floor_row n g =
     upsert Floor ''number'' (VInt n)
       (set_all [(''difficulty'',
          VInt (if n \<le> 3 then 1 else if n \<le> 5 then 2 else if n \<le> 7 then 3 else 4))]) g"

text \<open>\<open>range(1, 9)\<close> of Cypher includes both ends.\<close>

definition floor_numbers :: "int list" where
  "floor_numbers = [1, 2, 3, 4, 5, 6, 7, 8, 9]"

definition create_difficulty_floor_mapping :: "graph \<Rightarrow> graph" where
  "create_difficulty_floor_mapping g = fold floor_row floor_numbers g"

text \<open>\<open>get_statistics\<close>: words, grades, roots, belongs\_to, has\_root, same\_root.\<close>

definition get_statistics :: "graph \<Rightarrow> nat \<times> nat \<times> nat \<times> nat \<times> nat \<times> nat" where
  "get_statistics g =
     (length (nodes g Word), length (nodes g Grade), length (nodes g Root),
      length (edges g BELONGS_TO), length (edges g HAS_ROOT), length (edges g SAME_ROOT))"

text \<open>
  The load of \<open>main\<close>, steps 5 to 9, on the entries the parser returned: grades, roots,
  words with their relations (default batch size 100), co-root relations, floors. An
  exception ends the run.
\<close>

definition load :: "Word list \<Rightarrow> graph \<Rightarrow> error + graph" where
  "load entries g =
     (case import_words entries 100 (import_roots (get_all_roots_of entries) (import_grades g)) of
        Inl e \<Rightarrow> Inl e
      | Inr g3 \<Rightarrow>
          (case create_same_root_relations g3 of
             Inl e \<Rightarrow> Inl e
           | Inr g4 \<Rightarrow> Inr (create_difficulty_floor_mapping g4)))"

text \<open>\<open>main\<close> clears the database before it loads.\<close>

definition main_load :: "Word list \<Rightarrow> graph \<Rightarrow> error + graph" where
  "main_load entries g = load entries (clear_database g)"

section \<open>The game's connection to the store (app.py)\<close>

text \<open>
  What the game sees of its surroundings: the content of the store, whether
  \<open>Neo4jConnection\<close> holds a driver (\<open>self.driver is not None\<close>), whether the three
  connection settings are present in the environment, whether
  \<open>GraphDatabase.driver\<close> accepts them, how many statements the store still answers
  before the connection is lost (\<open>None\<close>: it is never lost), and the time
  \<open>datetime()\<close> returns.
\<close>

record world =
  store :: graph
  driver :: bool
  configured :: bool
  uri_valid :: bool
  serves :: "nat option"
  now :: nat

text \<open>A statement reads the graph and returns a result and the graph it leaves, or is
  rejected by the store, which then keeps the graph.\<close>

type_synonym 'a stmt = "graph \<Rightarrow> error + ('a \<times> graph)"

type_synonym row = "(string \<times> val) list"

text \<open>\<open>session.run\<close> with the result consumed: an unreachable store raises.\<close>

definition session_run :: "'a stmt \<Rightarrow> world \<Rightarrow> (error + 'a) \<times> world" where
  "session_run q w =
     (if serves w = Some 0 then (Inl ServiceUnavailable, w)
      else
        let w1 = w\<lparr>serves := map_option (\<lambda>k. k - 1) (serves w)\<rparr>
        in case q (store w1) of
             Inl e \<Rightarrow> (Inl e, w1)
           | Inr (a, g) \<Rightarrow> (Inr a, w1\<lparr>store := g\<rparr>))"

definition return_1 :: "unit stmt" where
  "return_1 g = Inr ((), g)"

text \<open>
  \<open>Neo4jConnection.connect\<close>. The driver is assigned before the test query runs, and
  the \<open>except\<close> branch does not reset it.
\<close>

definition connect :: "world \<Rightarrow> bool \<times> world" where
  "connect w =
     (if \<not> driver w then
        (if configured w then
           (if \<not> uri_valid w then (False, w)
            else
              case session_run return_1 (w\<lparr>driver := True\<rparr>) of
                (Inl e, w1) \<Rightarrow> (False, w1)
              | (Inr u, w1) \<Rightarrow> (True, w1))
         else (False, w))
      else (True, w))"

text \<open>\<open>get_session\<close>: \<open>True\<close> stands for the session object, \<open>False\<close> for \<open>None\<close>.\<close>

definition get_session :: "world \<Rightarrow> bool \<times> world" where
  "get_session w = connect w"

text \<open>\<open>LIMIT $n\<close>: the store rejects a negative value.\<close>

definition limit_rows :: "int \<Rightarrow> 'a list \<Rightarrow> error + 'a list" where
  "limit_rows n xs = (if n < 0 then Inl ClientError else Inr (take (nat n) xs))"

text \<open>\<open>ORDER BY rand()\<close>: \<open>rnd i\<close> is the number drawn for the \<open>i\<close>-th row.\<close>

definition order_by_rand :: "(nat \<Rightarrow> nat) \<Rightarrow> 'a list \<Rightarrow> 'a list" where
  "order_by_rand rnd xs = map snd (sort_key fst (zip (map rnd [0..<length xs]) xs))"

section \<open>The queries of \<open>WordGame\<close> (app.py)\<close>

definition floor_grade_map :: "int \<Rightarrow> string list" where
  "floor_grade_map floor =
     (if floor = 1 then [grade_7a]
      else if floor = 2 then [grade_7a, grade_7b]
      else if floor = 3 then [grade_7b]
      else if floor = 4 then [grade_8a]
      else if floor = 5 then [grade_8a, grade_8b]
      else if floor = 6 then [grade_8b]
      else if floor = 7 then [grade_9]
      else if floor = 8 then [grade_9]
      else if floor = 9 then [grade_9]
      else [grade_7a])"

text \<open>The pairs bound by \<open>MATCH (w:Word)-[:BELONGS_TO]->(g:Grade)
  WHERE g.name IN $grades AND w.is_phrase = false\<close>, one for each relationship.\<close>

definition floor_matches :: "string list \<Rightarrow> graph \<Rightarrow> (node \<times> node) list" where
  "floor_matches grades g =
     [(w, gr).
        e \<leftarrow> edges g BELONGS_TO,
        w \<leftarrow> filter (\<lambda>n. nid n = esrc e) (nodes g Word),
        gr \<leftarrow> filter (\<lambda>n. nid n = edst e) (nodes g Grade),
        nprops gr ''name'' \<in> VStr ` set grades \<and> nprops w ''is_phrase'' = VBool False]"

definition floor_record :: "node \<times> node \<Rightarrow> row" where
  "floor_record m =
     (case m of (w, gr) \<Rightarrow>
        [(''word'', nprops w ''word''), (''phonetic'', nprops w ''phonetic''),
         (''definition'', nprops w ''definition''), (''pos'', nprops w ''pos''),
         (''grade'', nprops gr ''name'')])"

definition floor_words_query :: "(nat \<Rightarrow> nat) \<Rightarrow> string list \<Rightarrow> int \<Rightarrow> row list stmt" where
  "floor_words_query rnd grades limit g =
     (case limit_rows limit (order_by_rand rnd (map floor_record (floor_matches grades g))) of
        Inl e \<Rightarrow> Inl e
      | Inr rs \<Rightarrow> Inr (rs, g))"

definition get_words_for_floor :: "(nat \<Rightarrow> nat) \<Rightarrow> int \<Rightarrow> int \<Rightarrow> world \<Rightarrow> (error + row list) \<times> world" where
  "get_words_for_floor rnd floor limit w =
     (let grades = floor_grade_map floor
      in case get_session w of
           (True, w1) \<Rightarrow> session_run (floor_words_query rnd grades limit) w1
         | (False, w1) \<Rightarrow> (Inr [], w1))"

text \<open>\<open>get_random_definitions\<close>: \<open>WHERE w.definition <> $correct_def AND w.definition IS NOT
  NULL RETURN DISTINCT w.definition ORDER BY rand() LIMIT $count\<close>.\<close>

definition definitions_query :: "(nat \<Rightarrow> nat) \<Rightarrow> string \<Rightarrow> int \<Rightarrow> val list stmt" where
  "definitions_query rnd correct_def count' g =
     (let defs = remdups
            [nprops n ''definition''.
               n \<leftarrow> nodes g Word,
               nprops n ''definition'' \<noteq> VStr correct_def \<and> nprops n ''definition'' \<noteq> VNull]
      in case limit_rows count' (order_by_rand rnd defs) of
           Inl e \<Rightarrow> Inl e
         | Inr ds \<Rightarrow> Inr (ds, g))"

definition get_random_definitions :: "(nat \<Rightarrow> nat) \<Rightarrow> string \<Rightarrow> int \<Rightarrow> world \<Rightarrow> (error + val list) \<times> world" where
  "get_random_definitions rnd correct_def count' w =
     (case get_session w of
        (True, w1) \<Rightarrow> session_run (definitions_query rnd correct_def count') w1
      | (False, w1) \<Rightarrow> (Inr [], w1))"

text \<open>\<open>get_words_by_root\<close>.\<close>

definition words_by_root_query :: "string \<Rightarrow> row list stmt" where
  "words_by_root_query rt g =
     Inr ([[(''word'', nprops w ''word''), (''definition'', nprops w ''definition''),
            (''phonetic'', nprops w ''phonetic'')].
             r \<leftarrow> match_nodes Root ''name'' (VStr rt) g,
             e \<leftarrow> filter (\<lambda>e. edst e = nid r) (edges g HAS_ROOT),
             w \<leftarrow> filter (\<lambda>n. nid n = esrc e) (nodes g Word)], g)"

definition get_words_by_root :: "string \<Rightarrow> world \<Rightarrow> (error + row list) \<times> world" where
  "get_words_by_root rt w =
     (case get_session w of
        (True, w1) \<Rightarrow> session_run (words_by_root_query rt) w1
      | (False, w1) \<Rightarrow> (Inr [], w1))"

text \<open>\<open>get_all_roots\<close>: the roots with at least two words, most words first.\<close>

definition all_roots_query :: "row list stmt" where
  "all_roots_query g =
     (let counted =
            [(r, length [w. e \<leftarrow> filter (\<lambda>e. edst e = nid r) (edges g HAS_ROOT),
                           w \<leftarrow> filter (\<lambda>n. nid n = esrc e) (nodes g Word)]).
               r \<leftarrow> nodes g Root];
          kept = filter (\<lambda>(r, c). 2 \<le> c) counted
      in Inr (map (\<lambda>(r, c). [(''root'', nprops r ''name''), (''word_count'', VInt (int c))])
                (sort_key (\<lambda>(r, c). - int c) kept), g))"

definition get_all_roots :: "world \<Rightarrow> (error + row list) \<times> world" where
  "get_all_roots w =
     (case get_session w of
        (True, w1) \<Rightarrow> session_run all_roots_query w1
      | (False, w1) \<Rightarrow> (Inr [], w1))"

text \<open>\<open>result.single()\<close>: the first record, \<open>None\<close> when there is none.\<close>

definition single :: "'a list \<Rightarrow> 'a option" where
  "single rs = (case rs of [] \<Rightarrow> None | r # _ \<Rightarrow> Some r)"

text \<open>\<open>get_user_by_id\<close>.\<close>

definition user_record :: "node \<Rightarrow> row" where
  "user_record u =
     [(''user_id'', nprops u ''id''), (''total_questions'', nprops u ''total_questions''),
      (''correct_answers'', nprops u ''correct_answers''), (''score'', nprops u ''score''),
      (''current_floor'', nprops u ''current_floor''),
      (''mastered_count'', nprops u ''mastered_count''),
      (''wrong_count'', nprops u ''wrong_count''), (''last_active'', nprops u ''last_active'')]"

definition user_query :: "string \<Rightarrow> row option stmt" where
  "user_query user_id g =
     Inr (single (map user_record (match_nodes User ''id'' (VStr user_id) g)), g)"

definition get_user_by_id :: "string \<Rightarrow> world \<Rightarrow> (error + row option) \<times> world" where
  "get_user_by_id user_id w =
     (case get_session w of
        (True, w1) \<Rightarrow> session_run (user_query user_id) w1
      | (False, w1) \<Rightarrow> (Inr None, w1))"

section \<open>User records (app.py)\<close>

definition all_rels :: "rel list" where
  "all_rels = [BELONGS_TO, HAS_ROOT, SAME_ROOT]"

definition has_relationship :: "graph \<Rightarrow> node \<Rightarrow> bool" where
  "has_relationship g n =
     (\<exists>t \<in> set all_rels. \<exists>e \<in> set (edges g t). esrc e = nid n \<or> edst e = nid n)"

text \<open>
  \<open>MATCH (n:lbl {key: v}) DELETE n\<close>. A plain \<open>DELETE\<close> of a node that still has
  relationships is rejected by the store and nothing is deleted.
\<close>

definition delete_where :: "label \<Rightarrow> (node \<Rightarrow> bool) \<Rightarrow> unit stmt" where
  "delete_where lbl P g =
     (if \<exists>n \<in> set (filter P (nodes g lbl)). has_relationship g n then Inl ClientError
      else Inr ((), g\<lparr>nodes := (nodes g)(lbl := filter (\<lambda>n. \<not> P n) (nodes g lbl))\<rparr>))"

text \<open>The methods that wrap their query in \<open>try: ... return True / except: return False\<close>.\<close>

definition run_guarded :: "unit stmt \<Rightarrow> world \<Rightarrow> (error + bool) \<times> world" where
  "run_guarded q w =
     (case get_session w of
        (True, w1) \<Rightarrow>
          (case session_run q w1 of
             (Inl e, w2) \<Rightarrow> (Inr False, w2)
           | (Inr u, w2) \<Rightarrow> (Inr True, w2))
      | (False, w1) \<Rightarrow> (Inr False, w1))"

definition delete_user :: "string \<Rightarrow> world \<Rightarrow> (error + bool) \<times> world" where
  "delete_user user_id w = run_guarded (delete_where User (\<lambda>u. nprops u ''id'' = VStr user_id)) w"


text \<open>\<open>reset_user_data\<close>: \<open>MATCH (u:User {id: $user_id}) SET ...\<close>.\<close>

definition reset_sets :: "nat \<Rightarrow> (string \<times> val) list" where
  "reset_sets t =
     [(''total_questions'', VInt 0), (''correct_answers'', VInt 0), (''score'', VInt 0),
      (''current_floor'', VInt 1), (''mastered_count'', VInt 0), (''wrong_count'', VInt 0),
      (''last_active'', VTime t)]"

definition reset_query :: "string \<Rightarrow> nat \<Rightarrow> unit stmt" where
  "reset_query user_id t g = Inr ((), set_where User ''id'' (VStr user_id) (set_all (reset_sets t)) g)"

definition reset_user_data :: "string \<Rightarrow> world \<Rightarrow> (error + bool) \<times> world" where
  "reset_user_data user_id w = run_guarded (reset_query user_id (now w)) w"

text \<open>\<open>set_parent_password\<close>: \<open>MERGE (u:User {id: $user_id}) SET u.parent_password =
  $password\<close>.\<close>

definition set_password_query :: "string \<Rightarrow> string \<Rightarrow> unit stmt" where
  "set_password_query user_id password g =
     Inr ((), upsert User ''id'' (VStr user_id) (set_all [(''parent_password'', VStr password)]) g)"

definition set_parent_password :: "string \<Rightarrow> string \<Rightarrow> world \<Rightarrow> (error + bool) \<times> world" where
  "set_parent_password user_id password w = run_guarded (set_password_query user_id password) w"

text \<open>Python's truth value of a property value.\<close>

fun truthy :: "val \<Rightarrow> bool" where
  "truthy VNull = False"
| "truthy (VStr s) = (s \<noteq> [])"
| "truthy (VInt i) = (i \<noteq> 0)"
| "truthy (VBool b) = b"
| "truthy (VTime t) = True"

text \<open>\<open>get_parent_password\<close>: \<open>if result and result["password"]: return
  result["password"]\<close>, otherwise \<open>None\<close>.\<close>

definition password_query :: "string \<Rightarrow> val option stmt" where
  "password_query user_id g =
     Inr (single (map (\<lambda>u. nprops u ''parent_password'') (match_nodes User ''id'' (VStr user_id) g)), g)"

definition get_parent_password :: "string \<Rightarrow> world \<Rightarrow> (error + val option) \<times> world" where
  "get_parent_password user_id w =
     (case get_session w of
        (True, w1) \<Rightarrow>
          (case session_run (password_query user_id) w1 of
             (Inl e, w2) \<Rightarrow> (Inl e, w2)
           | (Inr result, w2) \<Rightarrow>
               (case result of
                  Some password \<Rightarrow> (if truthy password then (Inr (Some password), w2) else (Inr None, w2))
                | None \<Rightarrow> (Inr None, w2)))
      | (False, w1) \<Rightarrow> (Inr None, w1))"

text \<open>
  The submit branch of \<open>render_parent_login\<close>, with \<open>ADMIN_PASSWORDS["parent"]\<close>.
\<close>

definition ADMIN_PASSWORD_parent :: string where
  "ADMIN_PASSWORD_parent = ''admin666''"

datatype login = MissingStudent | ParentDashboard string | StudentPasswordError | PasswordError

definition parent_login :: "string \<Rightarrow> string \<Rightarrow> world \<Rightarrow> (error + login) \<times> world" where
  "parent_login student_id password w =
     (if student_id = [] then (Inr MissingStudent, w)
      else
        case get_parent_password student_id w of
          (Inl e, w1) \<Rightarrow> (Inl e, w1)
        | (Inr student_password, w1) \<Rightarrow>
            (case student_password of
               Some sp \<Rightarrow>
                 (if truthy sp then
                    (if VStr password = sp then (Inr (ParentDashboard student_id), w1)
                     else (Inr StudentPasswordError, w1))
                  else if password = ADMIN_PASSWORD_parent then (Inr (ParentDashboard student_id), w1)
                  else (Inr PasswordError, w1))
             | None \<Rightarrow>
                 (if password = ADMIN_PASSWORD_parent then (Inr (ParentDashboard student_id), w1)
                  else (Inr PasswordError, w1))))"

section \<open>Prizes (app.py)\<close>

text \<open>\<open>CREATE (p:Prize {name: $name, description: $description, weight: $weight,
  type: $prize_type})\<close>.\<close>

definition create_prize_query :: "val \<Rightarrow> val \<Rightarrow> val \<Rightarrow> string \<Rightarrow> unit stmt" where
  "create_prize_query name description weight prize_type g =
     Inr ((), g\<lparr>nodes := (nodes g)(Prize := nodes g Prize @
                 [\<lparr>nid = next_id g,
                   nprops = props_of [(''name'', name), (''description'', description),
                                      (''weight'', weight), (''type'', VStr prize_type)]\<rparr>]),
               next_id := Suc (next_id g)\<rparr>)"

text \<open>
  The loop of \<open>save_custom_prizes\<close>: \<open>prize["name"]\<close> raises \<open>KeyError\<close> when the
  dictionary lacks the key; every \<open>session.run\<close> is a statement of its own.
\<close>

fun create_prizes :: "row list \<Rightarrow> string \<Rightarrow> world \<Rightarrow> (error + unit) \<times> world" where
  "create_prizes [] prize_type w = (Inr (), w)"
| "create_prizes (prize # prizes) prize_type w =
     (case (map_of prize ''name'', map_of prize ''description'', map_of prize ''weight'') of
        (Some name, Some description, Some weight) \<Rightarrow>
          (case session_run (create_prize_query name description weight prize_type) w of
             (Inl e, w1) \<Rightarrow> (Inl e, w1)
           | (Inr u, w1) \<Rightarrow> create_prizes prizes prize_type w1)
      | _ \<Rightarrow> (Inl KeyError, w))"

definition save_custom_prizes :: "row list \<Rightarrow> string \<Rightarrow> world \<Rightarrow> (error + unit) \<times> world" where
  "save_custom_prizes prizes prize_type w =
     (case get_session w of
        (True, w1) \<Rightarrow>
          (case session_run (delete_where Prize (\<lambda>p. nprops p ''type'' = VStr prize_type)) w1 of
             (Inl e, w2) \<Rightarrow> (Inl e, w2)
           | (Inr u, w2) \<Rightarrow> create_prizes prizes prize_type w2)
      | (False, w1) \<Rightarrow> (Inr (), w1))"

section \<open>Notions used in the statements and the proofs\<close>

subsection \<open>Merge-and-set phases\<close>

text \<open>
  A phase of the loader that runs \<open>MERGE (n:lbl {key: v}) SET ...\<close> for a list of rows,
  each row given by its key value and the update its \<open>SET\<close> makes; what the rows do to
  one node; the two facts about the updates that the idempotence proof needs.
\<close>

definition upsert_rows :: "label \<Rightarrow> string \<Rightarrow> (val \<times> (props \<Rightarrow> props)) list \<Rightarrow> graph \<Rightarrow> graph" where
  "upsert_rows lbl key rows g = fold (\<lambda>(v, u). upsert lbl key v u) rows g"

definition apply_rows :: "string \<Rightarrow> (val \<times> (props \<Rightarrow> props)) list \<Rightarrow> node \<Rightarrow> node" where
  "apply_rows key rows n = fold (\<lambda>(v, u). apply_set key v u) rows n"

definition key_kept :: "string \<Rightarrow> (val \<times> (props \<Rightarrow> props)) list \<Rightarrow> bool" where
  "key_kept key rows = (\<forall>r \<in> set rows. \<forall>p. snd r p key = p key)"

definition overwriting :: "(val \<times> (props \<Rightarrow> props)) list \<Rightarrow> bool" where
  "overwriting rows = (\<forall>r \<in> set rows. \<forall>r' \<in> set rows. \<forall>p. snd r (snd r' p) = snd r p)"

definition grade_kv :: "string \<times> int \<times> int \<times> int \<Rightarrow> val \<times> (props \<Rightarrow> props)" where
  "grade_kv r =
     (case r of (name, level, fs, fe) \<Rightarrow>
        (VStr name,
         set_all [(''level'', VInt level), (''floor_start'', VInt fs), (''floor_end'', VInt fe)]))"

definition root_kv :: "string \<Rightarrow> val \<times> (props \<Rightarrow> props)" where
  "root_kv r = (VStr r, id)"

definition word_kv :: "Word \<Rightarrow> val \<times> (props \<Rightarrow> props)" where
  "word_kv w = (VStr (word w), set_all (word_sets w))"

definition floor_kv :: "int \<Rightarrow> val \<times> (props \<Rightarrow> props)" where
  "floor_kv n =
     (VInt n,
      set_all [(''difficulty'',
        VInt (if n \<le> 3 then 1 else if n \<le> 5 then 2 else if n \<le> 7 then 3 else 4))])"

subsection \<open>Relationship phases\<close>

text \<open>
  A phase that merges relationships of one type: each item yields rows (source,
  target, property values) read from the current graph.
\<close>

type_synonym edge_row = "nat \<times> nat \<times> (string \<times> val) list"

definition edge_present :: "rel \<Rightarrow> nat \<Rightarrow> nat \<Rightarrow> (string \<times> val) list \<Rightarrow> graph \<Rightarrow> bool" where
  "edge_present t a b kvs g =
     (\<exists>e \<in> set (edges g t). esrc e = a \<and> edst e = b \<and> (\<forall>(k, v) \<in> set kvs. eprops e k = v))"

definition merge_edges :: "rel \<Rightarrow> edge_row list \<Rightarrow> graph \<Rightarrow> graph" where
  "merge_edges t rows g = fold (\<lambda>(a, b, kvs). merge_edge t a b kvs) rows g"

definition edge_phase :: "rel \<Rightarrow> ('w \<Rightarrow> graph \<Rightarrow> edge_row list) \<Rightarrow> 'w list \<Rightarrow> graph \<Rightarrow> graph" where
  "edge_phase t rf ws g = fold (\<lambda>w h. merge_edges t (rf w h) h) ws g"

definition grade_rf :: "Word \<Rightarrow> graph \<Rightarrow> edge_row list" where
  "grade_rf w g =
     map (\<lambda>(a, b). (nid a, nid b, []))
       [(a, b). a \<leftarrow> match_nodes Word ''word'' (VStr (word w)) g,
                b \<leftarrow> match_nodes Grade ''name'' (VStr (grade w)) g]"

definition root_rf :: "Word \<Rightarrow> graph \<Rightarrow> edge_row list" where
  "root_rf w g =
     (if root w = [] then []
      else map (\<lambda>(a, b). (nid a, nid b, []))
             [(a, b). a \<leftarrow> match_nodes Word ''word'' (VStr (word w)) g,
                      b \<leftarrow> match_nodes Root ''name'' (VStr (root w)) g])"

definition same_rf :: "unit \<Rightarrow> graph \<Rightarrow> edge_row list" where
  "same_rf u g = map (\<lambda>(a, b, name). (a, b, [(''root'', name)])) (same_root_rows g)"

definition null_root_row :: "graph \<Rightarrow> bool" where
  "null_root_row g = (\<exists>(a, b, name) \<in> set (same_root_rows g). name = VNull)"

text \<open>The graph after the grades, the roots and \<open>import_words\<close>.\<close>

definition loaded :: "Word list \<Rightarrow> graph \<Rightarrow> graph" where
  "loaded es g =
     edge_phase HAS_ROOT root_rf (filter (\<lambda>w. root w \<noteq> []) es)
       (edge_phase BELONGS_TO grade_rf es
         (upsert_rows Word ''word'' (map word_kv es)
           (upsert_rows Root ''name'' (map root_kv (filter (\<lambda>r. r \<noteq> []) (get_all_roots_of es)))
             (upsert_rows Grade ''name'' (map grade_kv grades_table) g))))"

subsection \<open>Co-root relationships\<close>

text \<open>
  The member words of a root (the \<open>Word\<close> nodes with a \<open>HAS_ROOT\<close> relationship to it),
  the \<open>SAME_ROOT\<close> relationships that carry its name, and whether a relationship joins
  two nodes in either direction.
\<close>

definition root_members :: "graph \<Rightarrow> node \<Rightarrow> node list" where
  "root_members g r =
     filter (\<lambda>w. \<exists>e \<in> set (edges g HAS_ROOT). esrc e = nid w \<and> edst e = nid r) (nodes g Word)"

definition same_root_edges_of :: "graph \<Rightarrow> node \<Rightarrow> edge list" where
  "same_root_edges_of g r =
     filter (\<lambda>e. eprops e ''root'' = nprops r ''name'') (edges g SAME_ROOT)"

definition joins :: "edge \<Rightarrow> nat \<Rightarrow> nat \<Rightarrow> bool" where
  "joins e a b = ((esrc e = a \<and> edst e = b) \<or> (esrc e = b \<and> edst e = a))"

definition same_root_edge :: "nat \<times> nat \<times> val \<Rightarrow> edge" where
  "same_root_edge r =
     (case r of (a, b, name) \<Rightarrow> \<lparr>esrc = a, edst = b, eprops = props_of [(''root'', name)]\<rparr>)"

definition insert_end :: "'a \<Rightarrow> 'a list \<Rightarrow> 'a list" where
  "insert_end x xs = (if x \<in> set xs then xs else xs @ [x])"

subsection \<open>The store at serve time\<close>

text \<open>A session can be had and the store answers every statement.\<close>

definition store_up :: "world \<Rightarrow> bool" where
  "store_up w = ((driver w \<or> (configured w \<and> uri_valid w)) \<and> serves w = None)"

text \<open>The grade names whose level in \<open>import_grades\<close> lies between two bounds.\<close>

definition tier :: "int \<Rightarrow> int \<Rightarrow> string list" where
  "tier lo hi = [name. (name, level, fs, fe) \<leftarrow> grades_table, lo \<le> level \<and> level \<le> hi]"

subsection \<open>Prizes as the game reads them\<close>

text \<open>
  A prize dictionary with the three keys \<open>save_custom_prizes\<close> reads; the record it asks
  the store to hold; the record \<open>get_prizes\<close> returns for a node; the prizes of one type
  and the other \<open>Prize\<close> nodes; the graph after one \<open>CREATE\<close>.
\<close>

definition complete_prize :: "row \<Rightarrow> bool" where
  "complete_prize p =
     (map_of p ''name'' \<noteq> None \<and> map_of p ''description'' \<noteq> None \<and> map_of p ''weight'' \<noteq> None)"

definition requested :: "string \<Rightarrow> row \<Rightarrow> row" where
  "requested t p =
     [(''name'', the (map_of p ''name'')), (''description'', the (map_of p ''description'')),
      (''weight'', the (map_of p ''weight'')), (''type'', VStr t)]"

definition prize_view :: "node \<Rightarrow> row" where
  "prize_view n =
     [(''name'', nprops n ''name''), (''description'', nprops n ''description''),
      (''weight'', nprops n ''weight''), (''type'', nprops n ''type'')]"

definition saved_prizes :: "string \<Rightarrow> graph \<Rightarrow> row list" where
  "saved_prizes t g = map prize_view (match_nodes Prize ''type'' (VStr t) g)"

definition other_prizes :: "string \<Rightarrow> graph \<Rightarrow> node list" where
  "other_prizes t g = filter (\<lambda>p. nprops p ''type'' \<noteq> VStr t) (nodes g Prize)"

definition add_prize :: "string \<Rightarrow> row \<Rightarrow> graph \<Rightarrow> graph" where
  "add_prize t p g =
     g\<lparr>nodes := (nodes g)(Prize := nodes g Prize @ [\<lparr>nid = next_id g, nprops = props_of (requested t p)\<rparr>]),
       next_id := Suc (next_id g)\<rparr>"

section \<open>Sample stores\<close>

text \<open>Concrete entries, graphs and worlds on which the theorems below are instantiated.\<close>

definition empty_graph :: graph where
  "empty_graph = \<lparr>nodes = (\<lambda>l. []), edges = (\<lambda>t. []), next_id = 0\<rparr>"

definition sample_entries :: "Word list" where
  "sample_entries =
     [(parsed ''act'' grade_7a)\<lparr>root := ''act''\<rparr>, (parsed ''actor'' grade_7b)\<lparr>root := ''act''\<rparr>,
      parsed ''zoo'' grade_7a]"

definition sample_graph :: graph where
  "sample_graph = (case load sample_entries empty_graph of Inr g \<Rightarrow> g | Inl e \<Rightarrow> empty_graph)"

text \<open>Three words with a \<open>HAS_ROOT\<close> relationship to one root, before the co-root
  relationships are derived, and after.\<close>

definition pairing_root :: node where
  "pairing_root = \<lparr>nid = 3, nprops = props_of [(''name'', VStr ''act'')]\<rparr>"

definition pairing_graph :: graph where
  "pairing_graph =
     \<lparr>nodes = (\<lambda>l. [])
        (Word := [\<lparr>nid = 0, nprops = props_of [(''word'', VStr ''act'')]\<rparr>,
                  \<lparr>nid = 1, nprops = props_of [(''word'', VStr ''actor'')]\<rparr>,
                  \<lparr>nid = 2, nprops = props_of [(''word'', VStr ''react'')]\<rparr>],
         Root := [pairing_root]),
       edges = (\<lambda>t. [])
        (HAS_ROOT := [\<lparr>esrc = 0, edst = 3, eprops = no_props\<rparr>, \<lparr>esrc = 1, edst = 3, eprops = no_props\<rparr>,
                      \<lparr>esrc = 2, edst = 3, eprops = no_props\<rparr>]),
       next_id = 4\<rparr>"

definition paired_graph :: graph where
  "paired_graph = fold same_root_row (same_root_rows pairing_graph) pairing_graph"

text \<open>A store as the game finds it: grades, words (one with an empty definition, one a
  phrase), two users and a parent prize.\<close>

definition game_store :: graph where
  "game_store =
     \<lparr>nodes = (\<lambda>l. [])
        (Grade := [\<lparr>nid = 0, nprops = props_of [(''name'', VStr grade_7a)]\<rparr>,
                   \<lparr>nid = 1, nprops = props_of [(''name'', VStr grade_7b)]\<rparr>,
                   \<lparr>nid = 2, nprops = props_of [(''name'', VStr grade_9)]\<rparr>],
         Word := [\<lparr>nid = 3, nprops = props_of [(''word'', VStr ''apple''),
                     (''definition'', VStr ''a fruit''), (''is_phrase'', VBool False)]\<rparr>,
                  \<lparr>nid = 4, nprops = props_of [(''word'', VStr ''hello''),
                     (''definition'', VStr []), (''is_phrase'', VBool False)]\<rparr>,
                  \<lparr>nid = 5, nprops = props_of [(''word'', VStr ''give up''),
                     (''definition'', VStr ''stop''), (''is_phrase'', VBool True)]\<rparr>,
                  \<lparr>nid = 6, nprops = props_of [(''word'', VStr ''zebra''),
                     (''definition'', VStr ''an animal''), (''is_phrase'', VBool False)]\<rparr>],
         User := [\<lparr>nid = 7, nprops = props_of [(''id'', VStr ''bob''), (''score'', VInt 500),
                     (''current_floor'', VInt 3), (''total_questions'', VInt 60),
                     (''parent_password'', VStr ''secret'')]\<rparr>,
                  \<lparr>nid = 8, nprops = props_of [(''id'', VStr ''amy''), (''score'', VInt 20),
                     (''parent_password'', VStr [])]\<rparr>],
         Prize := [\<lparr>nid = 9, nprops = props_of [(''name'', VStr ''sticker''),
                      (''description'', VStr ''one sticker''), (''weight'', VInt 10),
                      (''type'', VStr ''parent'')]\<rparr>]),
       edges = (\<lambda>t. [])
        (BELONGS_TO := [\<lparr>esrc = 3, edst = 0, eprops = no_props\<rparr>, \<lparr>esrc = 4, edst = 1, eprops = no_props\<rparr>,
                        \<lparr>esrc = 5, edst = 0, eprops = no_props\<rparr>, \<lparr>esrc = 6, edst = 2, eprops = no_props\<rparr>]),
       next_id = 10\<rparr>"

text \<open>The game before its first query, the store up.\<close>

definition game_world :: world where
  "game_world = \<lparr>store = game_store, driver = False, configured = True, uri_valid = True,
                  serves = None, now = 42\<rparr>"

text \<open>The same with the store unreachable: before the first query, and once the
  connection object holds a driver.\<close>

definition down_world :: world where
  "down_world = game_world\<lparr>serves := Some 0\<rparr>"

definition lost_world :: world where
  "lost_world = game_world\<lparr>driver := True, serves := Some 0\<rparr>"

text \<open>The connection is lost after two more statements.\<close>

definition drop_world :: world where
  "drop_world = game_world\<lparr>driver := True, serves := Some 2\<rparr>"

definition new_prizes :: "row list" where
  "new_prizes =
     [[(''name'', VStr ''cake''), (''description'', VStr ''a cake''), (''weight'', VInt 20)],
      [(''name'', VStr ''toy''), (''description'', VStr ''a toy''), (''weight'', VInt 5)]]"


text \<open>The records of the two single words of the two lowest grades.\<close>

definition floor2_rows :: "row list" where
  "floor2_rows =
     [[(''word'', VStr ''apple''), (''phonetic'', VNull), (''definition'', VStr ''a fruit''),
       (''pos'', VNull), (''grade'', VStr grade_7a)],
      [(''word'', VStr ''hello''), (''phonetic'', VNull), (''definition'', VStr []),
       (''pos'', VNull), (''grade'', VStr grade_7b)]]"

section \<open>Lemmas about the store operations\<close>

subsection \<open>\<open>SET\<close> clauses\<close>

lemma set_all_apply:
  "set_all kvs p k = (case map_of (rev kvs) k of None \<Rightarrow> p k | Some v \<Rightarrow> v)"
  unfolding set_all_def
proof (induction kvs rule: rev_induct)
  case Nil
  then show ?case by simp
next
  case (snoc kv kvs)
  then show ?case by (cases kv) simp
qed

lemma set_all_other: "k \<notin> fst ` set kvs \<Longrightarrow> set_all kvs p k = p k"
  by (simp add: set_all_apply map_of_eq_None_iff[THEN iffD2])

lemma set_all_overwrites:
  assumes "fst ` set kvs' \<subseteq> fst ` set kvs"
  shows "set_all kvs (set_all kvs' p) = set_all kvs p"
proof (rule ext)
  fix k
  show "set_all kvs (set_all kvs' p) k = set_all kvs p k"
  proof (cases "map_of (rev kvs) k")
    case None
    then have "k \<notin> fst ` set kvs" by (simp add: map_of_eq_None_iff)
    with assms have "k \<notin> fst ` set kvs'" by blast
    then show ?thesis using None by (simp add: set_all_apply[of kvs] set_all_other)
  next
    case (Some v)
    then show ?thesis by (simp add: set_all_apply[of kvs])
  qed
qed

lemma set_all_hit:
  "distinct (map fst kvs) \<Longrightarrow> (k, v) \<in> set kvs \<Longrightarrow> set_all kvs p k = v"
  by (simp add: set_all_apply distinct_rev rev_map[symmetric])

subsection \<open>Merge-and-set phases run twice\<close>

lemma set_where_nodes: "nodes (set_where lbl key v u g) lbl = map (apply_set key v u) (nodes g lbl)"
  by (simp add: set_where_def)

lemma upsert_nodes_same:
  "nodes (upsert lbl key v u g) lbl =
     map (apply_set key v u)
       (nodes g lbl @ (if \<exists>n \<in> set (nodes g lbl). nprops n key = v then []
                       else [\<lparr>nid = next_id g, nprops = no_props(key := v)\<rparr>]))"
  by (simp add: upsert_def set_where_def merge_node_def)

lemma upsert_nodes_other: "l \<noteq> lbl \<Longrightarrow> nodes (upsert lbl key v u g) l = nodes g l"
  by (simp add: upsert_def set_where_def merge_node_def)

lemma upsert_edges: "edges (upsert lbl key v u g) = edges g"
  by (simp add: upsert_def set_where_def merge_node_def)

lemma upsert_present:
  "\<exists>n \<in> set (nodes g lbl). nprops n key = v \<Longrightarrow>
   upsert lbl key v u g = g\<lparr>nodes := (nodes g)(lbl := map (apply_set key v u) (nodes g lbl))\<rparr>"
  by (simp add: upsert_def set_where_def merge_node_def)

lemma apply_set_key: "u (nprops n) key = nprops n key \<Longrightarrow> nprops (apply_set key v u n) key = nprops n key"
  by (simp add: apply_set_def)

lemma upsert_rows_nodes_other: "l \<noteq> lbl \<Longrightarrow> nodes (upsert_rows lbl key rows g) l = nodes g l"
  unfolding upsert_rows_def
  by (induction rows arbitrary: g) (auto simp: upsert_nodes_other)

lemma upsert_rows_edges: "edges (upsert_rows lbl key rows g) = edges g"
  unfolding upsert_rows_def
  by (induction rows arbitrary: g) (auto simp: upsert_edges)

lemma upsert_rows_snoc:
  "upsert_rows lbl key (rows @ [(v, u)]) g = upsert lbl key v u (upsert_rows lbl key rows g)"
  by (simp add: upsert_rows_def)

lemma apply_rows_snoc: "apply_rows key (rows @ [(v, u)]) n = apply_set key v u (apply_rows key rows n)"
  by (simp add: apply_rows_def)

lemma apply_rows_key:
  "key_kept key rows \<Longrightarrow> nprops (apply_rows key rows n) key = nprops n key"
  unfolding apply_rows_def key_kept_def
  by (induction rows arbitrary: n) (auto simp: apply_set_def)

lemma apply_rows_nid: "nid (apply_rows key rows n) = nid n"
  unfolding apply_rows_def
  by (induction rows arbitrary: n) (auto simp: apply_set_def)

text \<open>A later SET of a row overwrites what the earlier rows set.\<close>
lemma apply_rows_overwritten:
  "\<forall>(v', u') \<in> set rows. \<forall>p. u (u' p) = u p \<Longrightarrow>
   u (nprops (apply_rows key rows n)) = u (nprops n)"
  unfolding apply_rows_def
  by (induction rows arbitrary: n) (auto simp: apply_set_def)

lemma upsert_rows_keys_exist:
  assumes "key_kept key rows"
  shows "\<forall>(v, u) \<in> set rows. \<exists>n \<in> set (nodes (upsert_rows lbl key rows g) lbl). nprops n key = v"
  using assms
proof (induction rows rule: rev_induct)
  case Nil
  then show ?case by simp
next
  case (snoc r rows)
  obtain v u where r: "r = (v, u)" by (cases r)
  from snoc.prems have kk: "key_kept key rows" and ku: "\<And>p. u p key = p key"
    by (auto simp: key_kept_def r)
  let ?G = "upsert_rows lbl key rows g"
  have keep: "\<And>n. nprops (apply_set key v u n) key = nprops n key"
    by (simp add: apply_set_def ku)
  have new: "\<exists>n \<in> set (nodes (upsert lbl key v u ?G) lbl). nprops n key = v"
  proof (cases "\<exists>n \<in> set (nodes ?G lbl). nprops n key = v")
    case True
    then obtain n where "n \<in> set (nodes ?G lbl)" "nprops n key = v" by blast
    then have "apply_set key v u n \<in> set (nodes (upsert lbl key v u ?G) lbl)"
      by (simp add: upsert_nodes_same)
    then show ?thesis using keep \<open>nprops n key = v\<close> by metis
  next
    case False
    then have "apply_set key v u \<lparr>nid = next_id ?G, nprops = no_props(key := v)\<rparr>
                 \<in> set (nodes (upsert lbl key v u ?G) lbl)"
      by (simp add: upsert_nodes_same)
    moreover have "nprops (apply_set key v u \<lparr>nid = next_id ?G, nprops = no_props(key := v)\<rparr>) key = v"
      by (simp add: keep)
    ultimately show ?thesis by blast
  qed
  have old: "\<exists>n \<in> set (nodes (upsert lbl key v u ?G) lbl). nprops n key = v'"
    if "(v', u') \<in> set rows" for v' u'
  proof -
    from snoc.IH[OF kk] that obtain n where n: "n \<in> set (nodes ?G lbl)" "nprops n key = v'"
      by blast
    then have "apply_set key v u n \<in> set (nodes (upsert lbl key v u ?G) lbl)"
      by (simp add: upsert_nodes_same)
    with keep n show ?thesis by metis
  qed
  show ?case
    using new old by (auto simp: r upsert_rows_snoc)
qed

lemma upsert_rows_fixpoints:
  assumes "key_kept key rows" and "overwriting rows"
  shows "\<forall>n \<in> set (nodes (upsert_rows lbl key rows g) lbl). apply_rows key rows n = n"
  using assms
proof (induction rows rule: rev_induct)
  case Nil
  then show ?case by (simp add: apply_rows_def)
next
  case (snoc r rows)
  obtain v u where r: "r = (v, u)" by (cases r)
  from snoc.prems have kk: "key_kept key rows" and ku: "\<And>p. u p key = p key"
    by (auto simp: key_kept_def r)
  from snoc.prems(2) have ow: "overwriting rows"
    unfolding overwriting_def by simp
  from snoc.prems(2) have ou: "\<forall>(v', u') \<in> set rows. \<forall>p. u (u' p) = u p"
    unfolding overwriting_def r by fastforce
  from snoc.prems(2) have uu: "\<And>p. u (u p) = u p"
    unfolding overwriting_def r by simp
  let ?G = "upsert_rows lbl key rows g"
  have "apply_set key v u (apply_rows key rows (apply_set key v u n0)) = apply_set key v u n0"
    if n0: "n0 \<in> set (nodes ?G lbl) \<or> n0 = \<lparr>nid = next_id ?G, nprops = no_props(key := v)\<rparr>" for n0
  proof (cases "nprops n0 key = v")
    case True
    let ?n = "n0\<lparr>nprops := u (nprops n0)\<rparr>"
    let ?m = "apply_rows key rows ?n"
    have n: "apply_set key v u n0 = ?n" using True by (simp add: apply_set_def)
    have mk: "nprops ?m key = v" using True by (simp add: apply_rows_key[OF kk] ku)
    have "u (nprops ?m) = u (nprops ?n)" by (rule apply_rows_overwritten[OF ou])
    then have "u (nprops ?m) = u (nprops n0)" by (simp add: uu)
    moreover have "nid ?m = nid n0" by (simp add: apply_rows_nid)
    ultimately have "?m\<lparr>nprops := u (nprops ?m)\<rparr> = ?n" by simp
    then show ?thesis using mk n by (simp add: apply_set_def)
  next
    case False
    then have "n0 \<in> set (nodes ?G lbl)" using n0 by auto
    then have "apply_rows key rows n0 = n0" using snoc.IH[OF kk ow] by blast
    then show ?thesis using False by (simp add: apply_set_def)
  qed
  then show ?case
    by (auto simp: r upsert_rows_snoc upsert_nodes_same apply_rows_snoc)
qed

lemma upsert_rows_no_creation:
  assumes "key_kept key rows"
    and "\<forall>(v, u) \<in> set rows. \<exists>n \<in> set (nodes g lbl). nprops n key = v"
  shows "upsert_rows lbl key rows g = g\<lparr>nodes := (nodes g)(lbl := map (apply_rows key rows) (nodes g lbl))\<rparr>"
  using assms
proof (induction rows arbitrary: g)
  case Nil
  then show ?case by (simp add: upsert_rows_def apply_rows_def)
next
  case (Cons r rows)
  obtain v u where r: "r = (v, u)" by (cases r)
  from Cons.prems have kk: "key_kept key rows" and ku: "\<And>p. u p key = p key"
    by (auto simp: key_kept_def r)
  from Cons.prems(2) have ex: "\<exists>n \<in> set (nodes g lbl). nprops n key = v" by (auto simp: r)
  let ?g1 = "g\<lparr>nodes := (nodes g)(lbl := map (apply_set key v u) (nodes g lbl))\<rparr>"
  have g1: "upsert lbl key v u g = ?g1" by (rule upsert_present[OF ex])
  have "\<forall>(v', u') \<in> set rows. \<exists>n \<in> set (nodes ?g1 lbl). nprops n key = v'"
  proof (clarify)
    fix v' u' assume "(v', u') \<in> set rows"
    with Cons.prems(2) obtain n where "n \<in> set (nodes g lbl)" "nprops n key = v'" by fastforce
    then have "apply_set key v u n \<in> set (nodes ?g1 lbl)"
      and "nprops (apply_set key v u n) key = v'"
      by (simp_all add: apply_set_def ku)
    then show "\<exists>n \<in> set (nodes ?g1 lbl). nprops n key = v'" by blast
  qed
  from Cons.IH[OF kk this]
  have ih: "upsert_rows lbl key rows ?g1 =
          ?g1\<lparr>nodes := (nodes ?g1)(lbl := map (apply_rows key rows) (nodes ?g1 lbl))\<rparr>" .
  have step: "apply_rows key (r # rows) = apply_rows key rows \<circ> apply_set key v u"
    by (rule ext) (simp add: apply_rows_def r)
  have "upsert_rows lbl key (r # rows) g = upsert_rows lbl key rows ?g1"
    by (simp add: upsert_rows_def r g1)
  also have "\<dots> = ?g1\<lparr>nodes := (nodes ?g1)(lbl := map (apply_rows key rows) (nodes ?g1 lbl))\<rparr>"
    by (rule ih)
  also have "\<dots> = g\<lparr>nodes := (nodes g)(lbl := map (apply_rows key (r # rows)) (nodes g lbl))\<rparr>"
    by (simp add: step)
  finally show ?case .
qed

text \<open>Second run of a merge-and-set phase: nothing changes\<close>
lemma upsert_rows_rerun:
  assumes "key_kept key rows" and "overwriting rows"
    and "nodes G lbl = nodes (upsert_rows lbl key rows g) lbl"
  shows "upsert_rows lbl key rows G = G"
proof -
  have ex: "\<forall>(v, u) \<in> set rows. \<exists>n \<in> set (nodes G lbl). nprops n key = v"
    using upsert_rows_keys_exist[OF assms(1), of lbl g] assms(3) by simp
  have fp: "\<forall>n \<in> set (nodes G lbl). apply_rows key rows n = n"
    using upsert_rows_fixpoints[OF assms(1,2), of lbl g] assms(3) by simp
  then have "map (apply_rows key rows) (nodes G lbl) = nodes G lbl"
    by (simp add: map_idI)
  with upsert_rows_no_creation[OF assms(1) ex] show ?thesis by simp
qed

subsection \<open>The node phases of the loader as merge-and-set phases\<close>

lemma import_grades_rows: "import_grades g = upsert_rows Grade ''name'' (map grade_kv grades_table) g"
  by (simp add: import_grades_def upsert_rows_def fold_map o_def grade_row_def[abs_def] grade_kv_def split_def)

lemma fold_root_rows: "fold root_row rs g = upsert_rows Root ''name'' (map root_kv rs) g"
  by (simp add: upsert_rows_def fold_map o_def root_row_def[abs_def] root_kv_def)

lemma fold_word_rows: "fold create_word_row ws g = upsert_rows Word ''word'' (map word_kv ws) g"
  by (simp add: upsert_rows_def fold_map o_def create_word_row_def[abs_def] word_kv_def)

lemma floor_rows: "create_difficulty_floor_mapping g = upsert_rows Floor ''number'' (map floor_kv floor_numbers) g"
  unfolding create_difficulty_floor_mapping_def upsert_rows_def fold_map
  by (simp add: o_def floor_row_def[abs_def] floor_kv_def)

lemma grade_rows_ok: "key_kept ''name'' (map grade_kv rs) \<and> overwriting (map grade_kv rs)"
  by (auto simp: key_kept_def overwriting_def grade_kv_def split_def set_all_other set_all_overwrites)

lemma root_rows_ok: "key_kept ''name'' (map root_kv rs) \<and> overwriting (map root_kv rs)"
  by (auto simp: key_kept_def overwriting_def root_kv_def)

lemma word_rows_ok: "key_kept ''word'' (map word_kv ws) \<and> overwriting (map word_kv ws)"
  by (auto simp: key_kept_def overwriting_def word_kv_def word_sets_def set_all_other set_all_overwrites)

lemma floor_rows_ok: "key_kept ''number'' (map floor_kv ns) \<and> overwriting (map floor_kv ns)"
  by (auto simp: key_kept_def overwriting_def floor_kv_def set_all_other set_all_overwrites)

lemma concat_batches: "0 < k \<Longrightarrow> concat (batches k xs) = xs"
proof (induction k xs rule: batches.induct)
  case (1 k xs)
  then show ?case by (subst batches.simps) auto
qed

lemma fold_fold_concat: "fold (\<lambda>b. fold f b) bs g = fold f (concat bs) g"
  by (induction bs arbitrary: g) auto

subsection \<open>Relationship phases run twice\<close>

lemma merge_edge_alt:
  "merge_edge t a b kvs g =
     (if edge_present t a b kvs g then g
      else g\<lparr>edges := (edges g)(t := edges g t @ [\<lparr>esrc = a, edst = b, eprops = props_of kvs\<rparr>])\<rparr>)"
  by (simp add: merge_edge_def edge_present_def)

lemma merge_edge_nodes [simp]: "nodes (merge_edge t a b kvs g) = nodes g"
  by (simp add: merge_edge_def)

lemma merge_edge_next_id [simp]: "next_id (merge_edge t a b kvs g) = next_id g"
  by (simp add: merge_edge_def)

lemma merge_edge_other [simp]: "t' \<noteq> t \<Longrightarrow> edges (merge_edge t a b kvs g) t' = edges g t'"
  by (simp add: merge_edge_def)

lemma merge_edge_present: "edge_present t a b kvs g \<Longrightarrow> merge_edge t a b kvs g = g"
  by (simp add: merge_edge_alt)

lemma merge_edge_keeps:
  "edge_present t a b kvs g \<Longrightarrow> edge_present t a b kvs (merge_edge t' a' b' kvs' g)"
  by (auto simp: merge_edge_def edge_present_def)

lemma props_of_hit: "distinct (map fst kvs) \<Longrightarrow> (k, v) \<in> set kvs \<Longrightarrow> props_of kvs k = v"
  by (simp add: props_of_def set_all_hit)

lemma merge_edge_makes:
  "distinct (map fst kvs) \<Longrightarrow> edge_present t a b kvs (merge_edge t a b kvs g)"
  by (auto simp: merge_edge_alt edge_present_def props_of_hit)

lemma merge_edges_nodes [simp]: "nodes (merge_edges t rows g) = nodes g"
  unfolding merge_edges_def by (induction rows arbitrary: g) auto

lemma merge_edges_next_id [simp]: "next_id (merge_edges t rows g) = next_id g"
  unfolding merge_edges_def by (induction rows arbitrary: g) auto

lemma merge_edges_other [simp]: "t' \<noteq> t \<Longrightarrow> edges (merge_edges t rows g) t' = edges g t'"
  unfolding merge_edges_def by (induction rows arbitrary: g) auto

lemma merge_edges_keeps:
  "edge_present t a b kvs g \<Longrightarrow> edge_present t a b kvs (merge_edges t' rows g)"
  unfolding merge_edges_def by (induction rows arbitrary: g) (auto simp: merge_edge_keeps)

lemma merge_edges_snoc:
  "merge_edges t (rows @ [(a, b, kvs)]) g = merge_edge t a b kvs (merge_edges t rows g)"
  by (simp add: merge_edges_def)

lemma merge_edges_makes:
  "(a, b, kvs) \<in> set rows \<Longrightarrow> distinct (map fst kvs) \<Longrightarrow>
   edge_present t a b kvs (merge_edges t rows g)"
proof (induction rows rule: rev_induct)
  case Nil
  then show ?case by simp
next
  case (snoc r rows)
  obtain a' b' kvs' where r: "r = (a', b', kvs')" by (cases r)
  show ?case
  proof (cases "(a, b, kvs) = r")
    case True
    then show ?thesis
      using snoc.prems(2) by (simp add: r merge_edges_snoc merge_edge_makes)
  next
    case False
    with snoc.prems have "(a, b, kvs) \<in> set rows" by simp
    then have "edge_present t a b kvs (merge_edges t rows g)"
      using snoc.IH snoc.prems(2) by simp
    then show ?thesis by (simp add: r merge_edges_snoc merge_edge_keeps)
  qed
qed

lemma merge_edges_all_present:
  "(\<And>a b kvs. (a, b, kvs) \<in> set rows \<Longrightarrow> edge_present t a b kvs g) \<Longrightarrow> merge_edges t rows g = g"
  unfolding merge_edges_def by (induction rows) (auto simp: merge_edge_present)

lemma edge_present_cong: "edges g t = edges g' t \<Longrightarrow> edge_present t a b kvs g = edge_present t a b kvs g'"
  by (simp add: edge_present_def)

lemma fold_fixed: "(\<And>x. x \<in> set xs \<Longrightarrow> f x g = g) \<Longrightarrow> fold f xs g = g"
  by (induction xs) auto

lemma edge_phase_nodes [simp]: "nodes (edge_phase t rf ws g) = nodes g"
  unfolding edge_phase_def by (induction ws arbitrary: g) auto

lemma edge_phase_next_id [simp]: "next_id (edge_phase t rf ws g) = next_id g"
  unfolding edge_phase_def by (induction ws arbitrary: g) auto

lemma edge_phase_other [simp]: "t' \<noteq> t \<Longrightarrow> edges (edge_phase t rf ws g) t' = edges g t'"
  unfolding edge_phase_def by (induction ws arbitrary: g) auto

lemma edge_phase_rows:
  assumes "\<And>w rows h. rf w (merge_edges t rows h) = rf w h"
  shows "rf w (edge_phase t rf ws g) = rf w g"
  unfolding edge_phase_def by (induction ws arbitrary: g) (auto simp: assms)

lemma edge_phase_makes:
  assumes inv: "\<And>w rows h. rf w (merge_edges t rows h) = rf w h"
    and dk: "\<And>w h a b kvs. (a, b, kvs) \<in> set (rf w h) \<Longrightarrow> distinct (map fst kvs)"
  shows "w \<in> set ws \<Longrightarrow> (a, b, kvs) \<in> set (rf w g) \<Longrightarrow>
         edge_present t a b kvs (edge_phase t rf ws g)"
proof (induction ws rule: rev_induct)
  case Nil
  then show ?case by simp
next
  case (snoc w' ws)
  let ?h = "edge_phase t rf ws g"
  have step: "edge_phase t rf (ws @ [w']) g = merge_edges t (rf w' g) ?h"
    using edge_phase_rows[of rf t w' ws g, OF inv] by (simp add: edge_phase_def)
  show ?case
  proof (cases "w \<in> set ws")
    case True
    then have "edge_present t a b kvs ?h" using snoc.IH snoc.prems(2) by simp
    then show ?thesis by (simp add: step merge_edges_keeps)
  next
    case False
    with snoc.prems have "w = w'" by simp
    with snoc.prems(2) have "(a, b, kvs) \<in> set (rf w' g)" by simp
    then show ?thesis
      using dk by (simp add: step merge_edges_makes)
  qed
qed

lemma edge_phase_rerun:
  assumes inv: "\<And>w rows h. rf w (merge_edges t rows h) = rf w h"
    and dk: "\<And>w h a b kvs. (a, b, kvs) \<in> set (rf w h) \<Longrightarrow> distinct (map fst kvs)"
    and rows: "\<And>w. w \<in> set ws \<Longrightarrow> rf w G' = rf w G"
    and same: "edges G' t = edges (edge_phase t rf ws G) t"
  shows "edge_phase t rf ws G' = G'"
  unfolding edge_phase_def
proof (rule fold_fixed)
  fix w assume w: "w \<in> set ws"
  show "merge_edges t (rf w G') G' = G'"
  proof (rule merge_edges_all_present)
    fix a b kvs assume "(a, b, kvs) \<in> set (rf w G')"
    then have "(a, b, kvs) \<in> set (rf w G)" using rows[OF w] by simp
    then have "edge_present t a b kvs (edge_phase t rf ws G)"
      using edge_phase_makes[of rf t w ws a b kvs G] inv dk w by blast
    then show "edge_present t a b kvs G'"
      using edge_present_cong[OF same] by simp
  qed
qed

subsection \<open>The relationship phases of the loader\<close>

lemma grade_phase: "fold grade_relation_row ws g = edge_phase BELONGS_TO grade_rf ws g"
  by (simp add: edge_phase_def grade_relation_row_def[abs_def] merge_edges_def grade_rf_def
      fold_map o_def split_def)

lemma root_phase: "fold root_relation_row ws g = edge_phase HAS_ROOT root_rf ws g"
proof -
  have "root_relation_row = (\<lambda>w h. merge_edges HAS_ROOT (root_rf w h) h)"
    by (rule ext, rule ext)
       (simp add: root_relation_row_def merge_edges_def root_rf_def fold_map o_def split_def)
  then show ?thesis by (simp add: edge_phase_def)
qed

lemma same_phase: "fold same_root_row (same_root_rows g) g = edge_phase SAME_ROOT same_rf [()] g"
  by (simp add: edge_phase_def merge_edges_def same_rf_def fold_map o_def split_def
      same_root_row_def[abs_def])

lemma import_roots_rows:
  "import_roots rs g = upsert_rows Root ''name'' (map root_kv (filter (\<lambda>r. r \<noteq> []) rs)) g"
  by (simp add: import_roots_def Let_def fold_root_rows upsert_rows_def)

lemma import_words_100:
  "import_words es 100 g =
     Inr (edge_phase HAS_ROOT root_rf (filter (\<lambda>w. root w \<noteq> []) es)
           (edge_phase BELONGS_TO grade_rf es (upsert_rows Word ''word'' (map word_kv es) g)))"
proof -
  have c: "concat (batches 100 es) = es" by (rule concat_batches) simp
  have e: "edge_phase HAS_ROOT root_rf [] h = h" for h by (simp add: edge_phase_def)
  show ?thesis
    by (simp add: import_words_def Let_def fold_fold_concat c fold_word_rows grade_phase root_phase e)
qed

lemma create_same_root_phase:
  "create_same_root_relations g =
     (if null_root_row g then Inl ClientError else Inr (edge_phase SAME_ROOT same_rf [()] g))"
  by (simp add: create_same_root_relations_def Let_def null_root_row_def same_phase)

lemma load_phases:
  "load es g =
     (if null_root_row (loaded es g) then Inl ClientError
      else Inr (upsert_rows Floor ''number'' (map floor_kv floor_numbers)
                 (edge_phase SAME_ROOT same_rf [()] (loaded es g))))"
  by (simp add: load_def import_words_100 import_roots_rows import_grades_rows
      create_same_root_phase floor_rows loaded_def)

lemma grade_rf_cong:
  "nodes g Word = nodes h Word \<Longrightarrow> nodes g Grade = nodes h Grade \<Longrightarrow> grade_rf w g = grade_rf w h"
  by (simp add: grade_rf_def match_nodes_def)

lemma root_rf_cong:
  "nodes g Word = nodes h Word \<Longrightarrow> nodes g Root = nodes h Root \<Longrightarrow> root_rf w g = root_rf w h"
  by (simp add: root_rf_def match_nodes_def)

lemma same_root_rows_cong:
  "nodes g Word = nodes h Word \<Longrightarrow> nodes g Root = nodes h Root \<Longrightarrow>
   edges g HAS_ROOT = edges h HAS_ROOT \<Longrightarrow> same_root_rows g = same_root_rows h"
  by (simp add: same_root_rows_def)

lemma rf_keys:
  "(a, b, kvs) \<in> set (grade_rf w g) \<Longrightarrow> distinct (map fst kvs)"
  "(a, b, kvs) \<in> set (root_rf w g) \<Longrightarrow> distinct (map fst kvs)"
  "(a, b, kvs) \<in> set (same_rf u g) \<Longrightarrow> distinct (map fst kvs)"
  by (auto simp: grade_rf_def root_rf_def same_rf_def split: if_splits)

section \<open>Idempotence of the load\<close>

text \<open>
  Claim C1. Running the load a second time on the same list of parsed entries leaves the
  graph as the first run left it: the second run returns, and the graph it returns is the
  graph it started from, so the counts of \<open>get_statistics\<close> (\<open>Word\<close>, \<open>Grade\<close> and
  \<open>Root\<close> nodes, \<open>BELONGS_TO\<close>, \<open>HAS_ROOT\<close> and \<open>SAME_ROOT\<close> relationships) are the
  same. The first run may start from any graph; nothing is cleared between the runs.
\<close>

theorem load_idempotent:
  assumes "load es g = Inr G"
  shows "\<exists>G'. load es G = Inr G' \<and> G' = G \<and> get_statistics G' = get_statistics G"
proof -
  let ?grows = "map grade_kv grades_table"
  let ?rrows = "map root_kv (filter (\<lambda>r. r \<noteq> []) (get_all_roots_of es))"
  let ?wrows = "map word_kv es"
  let ?frows = "map floor_kv floor_numbers"
  let ?wr = "filter (\<lambda>w. root w \<noteq> []) es"
  define G1 where "G1 = upsert_rows Grade ''name'' ?grows g"
  define G2 where "G2 = upsert_rows Root ''name'' ?rrows G1"
  define Ga where "Ga = upsert_rows Word ''word'' ?wrows G2"
  define Gb where "Gb = edge_phase BELONGS_TO grade_rf es Ga"
  define Gc where "Gc = edge_phase HAS_ROOT root_rf ?wr Gb"
  define Gd where "Gd = edge_phase SAME_ROOT same_rf [()] Gc"
  have lg: "loaded es g = Gc"
    by (simp add: loaded_def G1_def G2_def Ga_def Gb_def Gc_def)
  from assms have ok: "\<not> null_root_row Gc" and G: "G = upsert_rows Floor ''number'' ?frows Gd"
    by (auto simp: load_phases lg Gd_def split: if_splits)
  have nG: "nodes G Grade = nodes G1 Grade" "nodes G Root = nodes G2 Root"
    "nodes G Word = nodes Ga Word"
    by (simp_all add: G Gd_def Gc_def Gb_def Ga_def G2_def upsert_rows_nodes_other upsert_rows_edges)
  have eG: "edges G BELONGS_TO = edges Gb BELONGS_TO" "edges G HAS_ROOT = edges Gc HAS_ROOT"
    "edges G SAME_ROOT = edges Gd SAME_ROOT"
    by (simp_all add: G Gd_def Gc_def upsert_rows_nodes_other upsert_rows_edges)
  have nGb: "nodes Gb = nodes Ga" "nodes Gc = nodes Ga"
    by (simp_all add: Gb_def Gc_def)
  have nGa: "nodes Ga Grade = nodes G1 Grade" "nodes Ga Root = nodes G2 Root"
    by (simp_all add: Ga_def G2_def upsert_rows_nodes_other upsert_rows_edges)
  have eGc: "edges Gc BELONGS_TO = edges Gb BELONGS_TO"
    by (simp add: Gc_def)
  have s1: "upsert_rows Grade ''name'' ?grows G = G"
    using grade_rows_ok[of grades_table] nG(1) unfolding G1_def
    by (intro upsert_rows_rerun) auto
  have s2: "upsert_rows Root ''name'' ?rrows G = G"
    using root_rows_ok nG(2) unfolding G2_def
    by (intro upsert_rows_rerun) auto
  have s3: "upsert_rows Word ''word'' ?wrows G = G"
    using word_rows_ok nG(3) unfolding Ga_def
    by (intro upsert_rows_rerun) auto
  have s4: "edge_phase BELONGS_TO grade_rf es G = G"
  proof (rule edge_phase_rerun[where G = Ga])
    show "grade_rf w (merge_edges BELONGS_TO rows h) = grade_rf w h" for w rows h
      by (rule grade_rf_cong) simp_all
    show "distinct (map fst kvs)" if "(a, b, kvs) \<in> set (grade_rf w h)" for w h a b kvs
      using that by (rule rf_keys)
    show "grade_rf w G = grade_rf w Ga" for w
      by (rule grade_rf_cong) (simp_all add: nG nGa)
    show "edges G BELONGS_TO = edges (edge_phase BELONGS_TO grade_rf es Ga) BELONGS_TO"
      by (simp add: eG Gb_def)
  qed
  have s5: "edge_phase HAS_ROOT root_rf ?wr G = G"
  proof (rule edge_phase_rerun[where G = Gb])
    show "root_rf w (merge_edges HAS_ROOT rows h) = root_rf w h" for w rows h
      by (rule root_rf_cong) simp_all
    show "distinct (map fst kvs)" if "(a, b, kvs) \<in> set (root_rf w h)" for w h a b kvs
      using that by (rule rf_keys)
    show "root_rf w G = root_rf w Gb" for w
      by (rule root_rf_cong) (simp_all add: nG nGb nGa)
    show "edges G HAS_ROOT = edges (edge_phase HAS_ROOT root_rf ?wr Gb) HAS_ROOT"
      by (simp add: eG Gc_def)
  qed
  have rows: "same_root_rows G = same_root_rows Gc"
    by (rule same_root_rows_cong) (simp_all add: nG nGb nGa eG)
  have s6: "edge_phase SAME_ROOT same_rf [()] G = G"
  proof (rule edge_phase_rerun[where G = Gc])
    show "same_rf w (merge_edges SAME_ROOT rows h) = same_rf w h" for w rows h
      by (simp add: same_rf_def same_root_rows_cong[of "merge_edges SAME_ROOT rows h" h])
    show "distinct (map fst kvs)" if "(a, b, kvs) \<in> set (same_rf w h)" for w h a b kvs
      using that by (rule rf_keys)
    show "same_rf w G = same_rf w Gc" for w
      by (simp add: same_rf_def rows)
    show "edges G SAME_ROOT = edges (edge_phase SAME_ROOT same_rf [()] Gc) SAME_ROOT"
      by (simp add: eG Gd_def)
  qed
  have s7: "upsert_rows Floor ''number'' ?frows G = G"
    using floor_rows_ok unfolding G
    by (intro upsert_rows_rerun) auto
  have l2: "loaded es G = G"
    by (simp add: loaded_def s1 s2 s3 s4 s5)
  have "\<not> null_root_row G" using ok by (simp add: null_root_row_def rows)
  then have "load es G = Inr G"
    by (simp add: load_phases l2 s6 s7)
  then show ?thesis by simp
qed

text \<open>The load of three entries into an empty store, run twice.\<close>

lemma sample_load_ok: "load sample_entries empty_graph = Inr sample_graph"
proof -
  have "case load sample_entries empty_graph of Inr g \<Rightarrow> True | Inl e \<Rightarrow> False"
    by code_simp
  then show ?thesis by (simp add: sample_graph_def split: sum.splits)
qed

theorem load_idempotent_witness:
  "load sample_entries empty_graph = Inr sample_graph \<and>
   load sample_entries sample_graph = Inr sample_graph \<and>
   get_statistics sample_graph = (3, 5, 1, 3, 2, 1)"
proof -
  have s: "get_statistics sample_graph = (3, 5, 1, 3, 2, 1)" by code_simp
  from load_idempotent[OF sample_load_ok] sample_load_ok s show ?thesis by simp
qed

section \<open>Co-root relationships pair the members of a root\<close>

lemma card_ordered_pairs:
  fixes M :: "nat set"
  assumes "finite M"
  shows "card {(a, b). a \<in> M \<and> b \<in> M \<and> a < b} = card M choose 2"
  using assms
proof (induction M rule: finite_linorder_max_induct)
  case empty
  then show ?case by simp
next
  case (insert b A)
  let ?P = "\<lambda>S. {(x, y). x \<in> S \<and> y \<in> S \<and> x < y}"
  have split: "?P (insert b A) = ?P A \<union> (\<lambda>a. (a, b)) ` A"
    using insert.hyps(2) by (auto simp: image_iff)
  have fin: "finite (?P A)"
    by (rule finite_subset[of _ "A \<times> A"]) (use insert.hyps(1) in auto)
  have disj: "?P A \<inter> (\<lambda>a. (a, b)) ` A = {}"
    using insert.hyps(2) by auto
  have "card (?P (insert b A)) = card (?P A) + card ((\<lambda>a. (a, b)) ` A)"
    unfolding split using fin insert.hyps(1) disj by (simp add: card_Un_disjoint)
  also have "card ((\<lambda>a. (a, b)) ` A) = card A"
    by (rule card_image) (simp add: inj_on_def)
  also have "card (?P A) = card A choose 2" by (rule insert.IH)
  finally have "card (?P (insert b A)) = (card A choose 2) + card A" .
  moreover have "b \<notin> A" using insert.hyps(2) by auto
  ultimately show ?case
    using insert.hyps(1) by (simp add: numeral_2_eq_2)
qed

lemma set_fold_insert_end: "set (fold insert_end xs ys) = set ys \<union> set xs"
  by (induction xs arbitrary: ys) (auto simp: insert_end_def)

lemma distinct_fold_insert_end: "distinct ys \<Longrightarrow> distinct (fold insert_end xs ys)"
  by (induction xs arbitrary: ys) (auto simp: insert_end_def)

lemma same_root_edge_inj: "same_root_edge r = same_root_edge r' \<Longrightarrow> r = r'"
proof -
  assume eq: "same_root_edge r = same_root_edge r'"
  obtain a b n where r: "r = (a, b, n)" by (cases r)
  obtain a' b' n' where r': "r' = (a', b', n')" by (cases r')
  from eq have "a = a'" "b = b'" and p: "props_of [(''root'', n)] = props_of [(''root'', n')]"
    by (simp_all add: same_root_edge_def r r')
  from p have "props_of [(''root'', n)] ''root'' = props_of [(''root'', n')] ''root''" by simp
  then have "n = n'" by (simp add: props_of_def set_all_def)
  with \<open>a = a'\<close> \<open>b = b'\<close> show ?thesis by (simp add: r r')
qed

lemma same_root_edge_sel [simp]:
  "esrc (same_root_edge (a, b, n)) = a" "edst (same_root_edge (a, b, n)) = b"
  "eprops (same_root_edge (a, b, n)) ''root'' = n"
  by (simp_all add: same_root_edge_def props_of_def set_all_def)

lemma same_root_row_canonical:
  assumes "set (edges h SAME_ROOT) \<subseteq> range same_root_edge"
  shows "edges (same_root_row r h) SAME_ROOT = insert_end (same_root_edge r) (edges h SAME_ROOT)"
proof -
  obtain a b n where r: "r = (a, b, n)" by (cases r)
  have "edge_present SAME_ROOT a b [(''root'', n)] h \<longleftrightarrow> same_root_edge r \<in> set (edges h SAME_ROOT)"
  proof
    assume "edge_present SAME_ROOT a b [(''root'', n)] h"
    then obtain e where e: "e \<in> set (edges h SAME_ROOT)" "esrc e = a" "edst e = b" "eprops e ''root'' = n"
      by (auto simp: edge_present_def)
    with assms obtain r' where "e = same_root_edge r'" by blast
    with e have "e = same_root_edge r" by (cases r') (auto simp: r)
    with e show "same_root_edge r \<in> set (edges h SAME_ROOT)" by simp
  next
    assume "same_root_edge r \<in> set (edges h SAME_ROOT)"
    then show "edge_present SAME_ROOT a b [(''root'', n)] h"
      unfolding edge_present_def by (intro bexI[of _ "same_root_edge r"]) (simp_all add: r)
  qed
  then show ?thesis
    by (simp add: same_root_row_def r merge_edge_alt insert_end_def same_root_edge_def)
qed

lemma fold_same_root_row_canonical:
  assumes "set (edges h SAME_ROOT) \<subseteq> range same_root_edge"
  shows "edges (fold same_root_row rows h) SAME_ROOT =
           fold insert_end (map same_root_edge rows) (edges h SAME_ROOT)"
  using assms
proof (induction rows arbitrary: h)
  case Nil
  then show ?case by simp
next
  case (Cons r rows)
  have e: "edges (same_root_row r h) SAME_ROOT = insert_end (same_root_edge r) (edges h SAME_ROOT)"
    by (rule same_root_row_canonical[OF Cons.prems])
  then have "set (edges (same_root_row r h) SAME_ROOT) \<subseteq> range same_root_edge"
    using Cons.prems by (auto simp: insert_end_def)
  from Cons.IH[OF this] show ?case by (simp add: e)
qed

lemma same_root_rows_iff:
  "(a, b, n) \<in> set (same_root_rows g) \<longleftrightarrow>
     (\<exists>w1 \<in> set (nodes g Word). \<exists>w2 \<in> set (nodes g Word). \<exists>r \<in> set (nodes g Root).
        a = nid w1 \<and> b = nid w2 \<and> n = nprops r ''name'' \<and> nid w1 < nid w2 \<and>
        (\<exists>e \<in> set (edges g HAS_ROOT). esrc e = nid w1 \<and> edst e = nid r) \<and>
        (\<exists>e \<in> set (edges g HAS_ROOT). esrc e = nid w2 \<and> edst e = nid r))"
  unfolding same_root_rows_def
  apply (simp add: Bex_def)
  apply (rule iffI)
   apply (elim exE conjE)
   apply metis
  apply (elim exE conjE)
  apply metis
  done

lemma root_members_iff:
  "w \<in> set (root_members g r) \<longleftrightarrow>
     w \<in> set (nodes g Word) \<and> (\<exists>e \<in> set (edges g HAS_ROOT). esrc e = nid w \<and> edst e = nid r)"
  by (simp add: root_members_def)

lemma same_root_pairs:
  assumes names: "distinct (map (\<lambda>r. nprops r ''name'') (nodes g Root))"
    and r: "r \<in> set (nodes g Root)"
  shows "{(a, b). (a, b, nprops r ''name'') \<in> set (same_root_rows g)} =
         {(a, b). a \<in> nid ` set (root_members g r) \<and> b \<in> nid ` set (root_members g r) \<and> a < b}"
proof -
  have same: "r' = r" if "r' \<in> set (nodes g Root)" "nprops r' ''name'' = nprops r ''name''" for r'
    using names r that by (meson distinct_map inj_onD)
  show ?thesis
  proof (intro set_eqI iffI; clarify)
    fix a b assume "(a, b, nprops r ''name'') \<in> set (same_root_rows g)"
    then obtain w1 w2 r' where w: "w1 \<in> set (nodes g Word)" "w2 \<in> set (nodes g Word)"
      "r' \<in> set (nodes g Root)" "a = nid w1" "b = nid w2" "nprops r ''name'' = nprops r' ''name''"
      "nid w1 < nid w2"
      "\<exists>e \<in> set (edges g HAS_ROOT). esrc e = nid w1 \<and> edst e = nid r'"
      "\<exists>e \<in> set (edges g HAS_ROOT). esrc e = nid w2 \<and> edst e = nid r'"
      unfolding same_root_rows_iff by blast
    from same[OF w(3)] w(6) have "r' = r" by simp
    with w have "w1 \<in> set (root_members g r)" "w2 \<in> set (root_members g r)"
      by (simp_all add: root_members_iff)
    with w show "a \<in> nid ` set (root_members g r) \<and> b \<in> nid ` set (root_members g r) \<and> a < b"
      by blast
  next
    fix a b w1 w2
    assume "w1 \<in> set (root_members g r)" "w2 \<in> set (root_members g r)" "nid w1 < nid w2"
    then show "(nid w1, nid w2, nprops r ''name'') \<in> set (same_root_rows g)"
      unfolding same_root_rows_iff root_members_iff using r by blast
  qed
qed

text \<open>
  Claim C2. On a store whose node identifiers are unique, whose root names are unique (the
  constraint \<open>root_unique\<close>) and that holds no \<open>SAME_ROOT\<close> relationship yet (the load
  of \<open>main\<close> starts from a cleared database), once \<open>create_same_root_relations\<close> has run,
  a root with \<open>n\<close> member words carries exactly \<open>n choose 2\<close> \<open>SAME_ROOT\<close>
  relationships; two distinct member words are joined by exactly one of them, counting
  both directions; no \<open>SAME_ROOT\<close> relationship joins a word to itself, and none has a
  twin in the reverse direction.
\<close>

theorem same_root_pairing:
  assumes ids: "distinct (map nid (nodes g Word))"
    and names: "distinct (map (\<lambda>r. nprops r ''name'') (nodes g Root))"
    and fresh: "edges g SAME_ROOT = []"
    and run: "create_same_root_relations g = Inr g'"
    and r: "r \<in> set (nodes g' Root)"
  shows "length (same_root_edges_of g' r) = length (root_members g' r) choose 2 \<and>
         (\<forall>w1 \<in> set (root_members g' r). \<forall>w2 \<in> set (root_members g' r). w1 \<noteq> w2 \<longrightarrow>
            length (filter (\<lambda>e. joins e (nid w1) (nid w2)) (same_root_edges_of g' r)) = 1) \<and>
         (\<forall>e \<in> set (edges g' SAME_ROOT). esrc e \<noteq> edst e) \<and>
         (\<forall>e \<in> set (edges g' SAME_ROOT). \<forall>e' \<in> set (edges g' SAME_ROOT).
            \<not> (esrc e' = edst e \<and> edst e' = esrc e))"
proof -
  let ?R = "same_root_rows g"
  let ?E = "edges g' SAME_ROOT"
  let ?n = "nprops r ''name''"
  let ?M = "nid ` set (root_members g r)"
  from run have g': "g' = fold same_root_row ?R g"
    by (simp add: create_same_root_relations_def Let_def split: if_splits)
  have fr: "nodes g' = nodes g" "edges g' HAS_ROOT = edges g HAS_ROOT"
    by (simp_all add: g' same_phase)
  have E: "?E = fold insert_end (map same_root_edge ?R) []"
    using fold_same_root_row_canonical[of g ?R] by (simp add: g' fresh)
  have setE: "set ?E = same_root_edge ` set ?R"
    by (simp add: E set_fold_insert_end)
  have dE: "distinct ?E"
    by (simp add: E distinct_fold_insert_end)
  have mem: "root_members g' r = root_members g r"
    by (simp add: root_members_def fr)
  from r have r0: "r \<in> set (nodes g Root)" by (simp add: fr)
  have dm: "distinct (map nid (root_members g r))"
    unfolding root_members_def using ids by (rule distinct_map_filter)
  then have cardM: "card ?M = length (root_members g r)"
    by (metis distinct_card length_map set_map)
  have pairs: "{(a, b). (a, b, ?n) \<in> set ?R} = {(a, b). a \<in> ?M \<and> b \<in> ?M \<and> a < b}"
    by (rule same_root_pairs[OF names r0])
  have lt: "esrc e < edst e" if "e \<in> set ?E" for e
  proof -
    from that obtain a b n where "(a, b, n) \<in> set ?R" "e = same_root_edge (a, b, n)"
      unfolding setE by auto
    then show ?thesis by (auto simp: same_root_rows_iff)
  qed
  have of_r: "set (same_root_edges_of g' r) = (\<lambda>(a, b). same_root_edge (a, b, ?n)) ` {(a, b). (a, b, ?n) \<in> set ?R}"
  proof (intro set_eqI iffI)
    fix e assume "e \<in> set (same_root_edges_of g' r)"
    then have "e \<in> set ?E" and n: "eprops e ''root'' = ?n"
      by (simp_all add: same_root_edges_of_def)
    then obtain a b m where row: "(a, b, m) \<in> set ?R" and e: "e = same_root_edge (a, b, m)"
      unfolding setE by auto
    from n e have "m = ?n" by simp
    with row e show "e \<in> (\<lambda>(a, b). same_root_edge (a, b, ?n)) ` {(a, b). (a, b, ?n) \<in> set ?R}"
      by (intro image_eqI[where x = "(a, b)"]) simp_all
  next
    fix e assume "e \<in> (\<lambda>(a, b). same_root_edge (a, b, ?n)) ` {(a, b). (a, b, ?n) \<in> set ?R}"
    then obtain a b where row: "(a, b, ?n) \<in> set ?R" and e: "e = same_root_edge (a, b, ?n)"
      by auto
    then have "e \<in> set ?E" unfolding setE by blast
    then show "e \<in> set (same_root_edges_of g' r)"
      by (simp add: same_root_edges_of_def e)
  qed
  have d_r: "distinct (same_root_edges_of g' r)"
    unfolding same_root_edges_of_def using dE by simp
  have "length (same_root_edges_of g' r) = card (set (same_root_edges_of g' r))"
    using d_r by (simp add: distinct_card)
  also have "\<dots> = card {(a, b). (a, b, ?n) \<in> set ?R}"
    unfolding of_r
    by (rule card_image) (auto simp: inj_on_def dest: same_root_edge_inj)
  also have "\<dots> = card ?M choose 2"
    unfolding pairs by (rule card_ordered_pairs) simp
  finally have count: "length (same_root_edges_of g' r) = length (root_members g' r) choose 2"
    by (simp add: cardM mem)
  have once: "length (filter (\<lambda>e. joins e (nid w1) (nid w2)) (same_root_edges_of g' r)) = 1"
    if w: "w1 \<in> set (root_members g' r)" "w2 \<in> set (root_members g' r)" "w1 \<noteq> w2" for w1 w2
  proof -
    from w have in_g: "w1 \<in> set (root_members g r)" "w2 \<in> set (root_members g r)"
      by (simp_all add: mem)
    then have "w1 \<in> set (nodes g Word)" "w2 \<in> set (nodes g Word)"
      by (simp_all add: root_members_iff)
    with ids w(3) have ne: "nid w1 \<noteq> nid w2"
      by (meson distinct_map inj_onD)
    let ?a = "min (nid w1) (nid w2)" and ?b = "max (nid w1) (nid w2)"
    let ?F = "filter (\<lambda>e. joins e (nid w1) (nid w2)) (same_root_edges_of g' r)"
    have ab: "?a \<in> ?M" "?b \<in> ?M" "?a < ?b"
      using in_g ne by (auto simp: min_def max_def)
    then have row: "(?a, ?b, ?n) \<in> set ?R"
      using pairs by blast
    have "set ?F = {same_root_edge (?a, ?b, ?n)}"
    proof (intro set_eqI iffI)
      fix e assume "e \<in> set ?F"
      then have j: "joins e (nid w1) (nid w2)" and "e \<in> set (same_root_edges_of g' r)" by simp_all
      then obtain a b where e: "e = same_root_edge (a, b, ?n)" "(a, b, ?n) \<in> set ?R"
        unfolding of_r by auto
      then have "a < b" by (auto simp: same_root_rows_iff)
      with j e(1) have "a = ?a \<and> b = ?b" by (auto simp: joins_def min_def max_def)
      with e(1) show "e \<in> {same_root_edge (?a, ?b, ?n)}" by simp
    next
      fix e assume "e \<in> {same_root_edge (?a, ?b, ?n)}"
      then have e: "e = same_root_edge (?a, ?b, ?n)" by simp
      have "e \<in> set (same_root_edges_of g' r)"
        unfolding of_r e using row by (intro image_eqI[where x = "(?a, ?b)"]) simp_all
      moreover have "joins e (nid w1) (nid w2)"
        unfolding e joins_def by (auto simp: min_def max_def)
      ultimately show "e \<in> set ?F" by simp
    qed
    moreover have "distinct ?F" using d_r by simp
    ultimately show ?thesis
      by (metis distinct_card card_1_singleton_iff is_singletonI is_singleton_altdef)
  qed
  have no_self: "\<forall>e \<in> set ?E. esrc e \<noteq> edst e"
    using lt by fastforce
  have no_rev: "\<forall>e \<in> set ?E. \<forall>e' \<in> set ?E. \<not> (esrc e' = edst e \<and> edst e' = esrc e)"
  proof (intro ballI notI)
    fix e e' assume "e \<in> set ?E" "e' \<in> set ?E" "esrc e' = edst e \<and> edst e' = esrc e"
    with lt[of e] lt[of e'] show False by simp
  qed
  show ?thesis using count once no_self no_rev by blast
qed

text \<open>Three member words: three co-root relationships.\<close>

lemma pairing_rows:
  "same_root_rows pairing_graph = [(0, 1, VStr ''act''), (0, 2, VStr ''act''), (1, 2, VStr ''act'')]"
  by (simp add: same_root_rows_def pairing_graph_def pairing_root_def props_of_def set_all_def)

lemma pairing_run: "create_same_root_relations pairing_graph = Inr paired_graph"
  by (simp add: create_same_root_relations_def paired_graph_def pairing_rows)

theorem same_root_pairing_witness:
  "distinct (map nid (nodes pairing_graph Word)) \<and>
   distinct (map (\<lambda>r. nprops r ''name'') (nodes pairing_graph Root)) \<and>
   edges pairing_graph SAME_ROOT = [] \<and>
   create_same_root_relations pairing_graph = Inr paired_graph \<and>
   pairing_root \<in> set (nodes paired_graph Root) \<and>
   length (root_members paired_graph pairing_root) = 3 \<and>
   length (same_root_edges_of paired_graph pairing_root) = 3"
proof -
  have h1: "distinct (map nid (nodes pairing_graph Word))"
    by (simp add: pairing_graph_def)
  have h2: "distinct (map (\<lambda>r. nprops r ''name'') (nodes pairing_graph Root))"
    by (simp add: pairing_graph_def)
  have h3: "edges pairing_graph SAME_ROOT = []"
    by (simp add: pairing_graph_def)
  have fr: "nodes paired_graph = nodes pairing_graph"
    "edges paired_graph HAS_ROOT = edges pairing_graph HAS_ROOT"
    by (simp_all add: paired_graph_def same_phase)
  have h5: "pairing_root \<in> set (nodes paired_graph Root)"
    by (simp add: fr pairing_graph_def)
  have m: "length (root_members paired_graph pairing_root) = 3"
    by (simp add: root_members_def fr) (simp add: pairing_graph_def pairing_root_def)
  from same_root_pairing[OF h1 h2 h3 pairing_run h5]
  have "length (same_root_edges_of paired_graph pairing_root) =
          length (root_members paired_graph pairing_root) choose 2" by blast
  then have "length (same_root_edges_of paired_graph pairing_root) = 3"
    by (simp add: m choose_two)
  with h1 h2 h3 pairing_run h5 m show ?thesis by blast
qed

section \<open>Sessions and statements\<close>

lemma session_run_up:
  "serves w = None \<Longrightarrow>
   session_run q w = (case q (store w) of Inl e \<Rightarrow> (Inl e, w) | Inr (a, g) \<Rightarrow> (Inr a, w\<lparr>store := g\<rparr>))"
  by (simp add: session_run_def split: sum.splits)

lemma connect_up: "store_up w \<Longrightarrow> connect w = (True, w\<lparr>driver := True\<rparr>)"
  by (auto simp: store_up_def connect_def session_run_up return_1_def)

lemma connect_store: "store (snd (connect w)) = store w"
  by (auto simp: connect_def session_run_def return_1_def Let_def split: option.splits nat.splits)

lemma connect_cases:
  "connect w = (b, w1) \<Longrightarrow> store w1 = store w \<and> now w1 = now w \<and> (b \<longrightarrow> driver w1)"
  by (auto simp: connect_def session_run_def return_1_def Let_def split: if_splits)

lemma limit_rows_length: "limit_rows n xs = Inr ys \<Longrightarrow> int (length ys) \<le> n \<and> set ys \<subseteq> set xs"
  by (auto simp: limit_rows_def split: if_splits dest: in_set_takeD)

lemma mset_order_by_rand: "mset (order_by_rand rnd xs) = mset xs"
proof -
  have "mset (map snd (sort_key fst (zip (map rnd [0..<length xs]) xs))) =
        mset (map snd (zip (map rnd [0..<length xs]) xs))"
    by (metis mset_map mset_sort)
  then show ?thesis by (simp add: order_by_rand_def)
qed

lemma set_order_by_rand [simp]: "set (order_by_rand rnd xs) = set xs"
  by (metis mset_order_by_rand set_mset_mset)

lemma distinct_order_by_rand [simp]: "distinct (order_by_rand rnd xs) = distinct xs"
  by (metis mset_order_by_rand mset_eq_imp_distinct_iff)

lemma floor_matches_iff:
  "(wd, gr) \<in> set (floor_matches grades g) \<longleftrightarrow>
     wd \<in> set (nodes g Word) \<and> gr \<in> set (nodes g Grade) \<and>
     (\<exists>e \<in> set (edges g BELONGS_TO). esrc e = nid wd \<and> edst e = nid gr) \<and>
     nprops gr ''name'' \<in> VStr ` set grades \<and> nprops wd ''is_phrase'' = VBool False"
  unfolding floor_matches_def
  apply (simp add: Bex_def)
  apply (rule iffI)
   apply (elim exE conjE)
   apply metis
  apply (elim exE conjE)
  apply metis
  done

lemma floor_table:
  "1 \<le> floor \<Longrightarrow> floor \<le> 3 \<Longrightarrow> set (floor_grade_map floor) \<subseteq> set (tier 1 2)"
  "floor_grade_map 2 = tier 1 2"
  "4 \<le> floor \<Longrightarrow> floor \<le> 6 \<Longrightarrow> set (floor_grade_map floor) \<subseteq> set (tier 3 4)"
  "floor_grade_map 5 = tier 3 4"
  "7 \<le> floor \<Longrightarrow> floor \<le> 9 \<Longrightarrow> floor_grade_map floor = tier 5 5"
  by (auto simp: floor_grade_map_def tier_def grades_table_def)

lemma session_run_result:
  "session_run q w = (Inr a, w') \<Longrightarrow> \<exists>g. q (store w) = Inr (a, g) \<and> store w' = g"
  by (auto simp: session_run_def Let_def split: if_splits sum.splits)


lemma get_session_cases:
  "get_session w = (b, w1) \<Longrightarrow> store w1 = store w \<and> now w1 = now w \<and> (b \<longrightarrow> driver w1)"
  unfolding get_session_def by (rule connect_cases)

lemma get_session_up: "store_up w \<Longrightarrow> get_session w = (True, w\<lparr>driver := True\<rparr>)"
  by (simp add: get_session_def connect_up)

lemma floor_query_rows:
  assumes "floor_words_query rnd grades limit g = Inr (rows, g')"
  shows "length rows \<le> nat limit \<and> set rows \<subseteq> floor_record ` set (floor_matches grades g) \<and> g' = g"
  using assms
  by (auto simp: floor_words_query_def limit_rows_def split: if_splits dest!: in_set_takeD)

lemma game_world_up: "store_up game_world"
  by (simp add: store_up_def game_world_def)

section \<open>Words for a floor\<close>

text \<open>
  Claim C4. For a floor from 1 to 9 and any limit, \<open>get_words_for_floor\<close> returns when
  the store is up and the limit is not negative; whenever it returns, it returns at most
  \<open>limit\<close> records (none for a negative limit, which only the branch without a session
  can return), and every record is that of a \<open>Word\<close> node with \<open>is_phrase = false\<close> that
  belongs to a \<open>Grade\<close> node whose name is in the floor's entry of the table. The table
  sends floors 1 to 3 to the two lowest grades (levels 1 and 2 of \<open>import_grades\<close>),
  floor 2 to both; floors 4 to 6 to the middle grades (levels 3 and 4), floor 5 to both;
  floors 7 to 9 to the top grade (level 5).
\<close>

theorem floor_words_from_table:
  assumes "1 \<le> floor" and "floor \<le> 9"
  shows "(store_up w \<and> 0 \<le> limit \<longrightarrow> (\<exists>rows. fst (get_words_for_floor rnd floor limit w) = Inr rows)) \<and>
         (\<forall>rows. fst (get_words_for_floor rnd floor limit w) = Inr rows \<longrightarrow>
            length rows \<le> nat limit \<and>
            (\<forall>row \<in> set rows.
               \<exists>wd \<in> set (nodes (store w) Word). \<exists>gr \<in> set (nodes (store w) Grade).
                 row = floor_record (wd, gr) \<and>
                 map_of row ''grade'' = Some (nprops gr ''name'') \<and>
                 nprops wd ''is_phrase'' = VBool False \<and>
                 (\<exists>e \<in> set (edges (store w) BELONGS_TO). esrc e = nid wd \<and> edst e = nid gr) \<and>
                 nprops gr ''name'' \<in> VStr ` set (floor_grade_map floor))) \<and>
         set (floor_grade_map floor) \<subseteq>
           set (if floor \<le> 3 then tier 1 2 else if floor \<le> 6 then tier 3 4 else tier 5 5) \<and>
         floor_grade_map 2 = tier 1 2 \<and> floor_grade_map 5 = tier 3 4"
proof (intro conjI allI impI)
  assume "store_up w \<and> 0 \<le> limit"
  then show "\<exists>rows. fst (get_words_for_floor rnd floor limit w) = Inr rows"
    by (simp add: get_words_for_floor_def get_session_up session_run_up store_up_def
        floor_words_query_def limit_rows_def)
next
  fix rows assume r: "fst (get_words_for_floor rnd floor limit w) = Inr rows"
  obtain b w1 where s: "get_session w = (b, w1)" by (cases "get_session w")
  have st: "store w1 = store w" using get_session_cases[OF s] by simp
  have "length rows \<le> nat limit \<and>
        set rows \<subseteq> floor_record ` set (floor_matches (floor_grade_map floor) (store w))"
  proof (cases b)
    case True
    obtain res w2 where run: "session_run (floor_words_query rnd (floor_grade_map floor) limit) w1 = (res, w2)"
      by (cases "session_run (floor_words_query rnd (floor_grade_map floor) limit) w1")
    with r s True have "res = Inr rows" by (simp add: get_words_for_floor_def)
    with run have "session_run (floor_words_query rnd (floor_grade_map floor) limit) w1 = (Inr rows, w2)"
      by simp
    from session_run_result[OF this]
    obtain g where "floor_words_query rnd (floor_grade_map floor) limit (store w1) = Inr (rows, g)"
      by blast
    from floor_query_rows[OF this] show ?thesis by (simp add: st)
  next
    case False
    with r s show ?thesis by (simp add: get_words_for_floor_def)
  qed
  then have len: "length rows \<le> nat limit"
    and sub: "set rows \<subseteq> floor_record ` set (floor_matches (floor_grade_map floor) (store w))"
    by simp_all
  have each: "\<exists>wd \<in> set (nodes (store w) Word). \<exists>gr \<in> set (nodes (store w) Grade).
                 row = floor_record (wd, gr) \<and>
                 map_of row ''grade'' = Some (nprops gr ''name'') \<and>
                 nprops wd ''is_phrase'' = VBool False \<and>
                 (\<exists>e \<in> set (edges (store w) BELONGS_TO). esrc e = nid wd \<and> edst e = nid gr) \<and>
                 nprops gr ''name'' \<in> VStr ` set (floor_grade_map floor)"
    if "row \<in> set rows" for row
  proof -
    from that sub obtain wd gr where m: "(wd, gr) \<in> set (floor_matches (floor_grade_map floor) (store w))"
      and row: "row = floor_record (wd, gr)" by auto
    have "map_of row ''grade'' = Some (nprops gr ''name'')"
      by (simp add: row floor_record_def)
    with m row show ?thesis unfolding floor_matches_iff by blast
  qed
  from len each show "length rows \<le> nat limit"
    and "\<forall>row \<in> set rows.
               \<exists>wd \<in> set (nodes (store w) Word). \<exists>gr \<in> set (nodes (store w) Grade).
                 row = floor_record (wd, gr) \<and>
                 map_of row ''grade'' = Some (nprops gr ''name'') \<and>
                 nprops wd ''is_phrase'' = VBool False \<and>
                 (\<exists>e \<in> set (edges (store w) BELONGS_TO). esrc e = nid wd \<and> edst e = nid gr) \<and>
                 nprops gr ''name'' \<in> VStr ` set (floor_grade_map floor)"
    by blast+
next
  show "set (floor_grade_map floor) \<subseteq>
           set (if floor \<le> 3 then tier 1 2 else if floor \<le> 6 then tier 3 4 else tier 5 5)"
    using assms floor_table(1,3,5)[of floor] by auto
qed (rule floor_table)+

text \<open>Floor 2 on the sample store: the two single words of the two lowest grades.\<close>

lemma floor2_run: "fst (get_words_for_floor id 2 10 game_world) = Inr floor2_rows"
  by code_simp

theorem floor_words_from_table_witness:
  "store_up game_world \<and>
   fst (get_words_for_floor id 2 10 game_world) = Inr floor2_rows \<and>
   length floor2_rows \<le> nat 10 \<and>
   (\<exists>wd \<in> set (nodes (store game_world) Word). \<exists>gr \<in> set (nodes (store game_world) Grade).
      hd floor2_rows = floor_record (wd, gr) \<and>
      nprops wd ''is_phrase'' = VBool False \<and>
      nprops gr ''name'' \<in> VStr ` set (floor_grade_map 2)) \<and>
   floor_grade_map 2 = [grade_7a, grade_7b]"
proof -
  have t: "floor_grade_map 2 = [grade_7a, grade_7b]" by (simp add: floor_grade_map_def)
  have "hd floor2_rows \<in> set floor2_rows" by (simp add: floor2_rows_def)
  with floor_words_from_table[of 2 game_world 10 id] floor2_run game_world_up t
  show ?thesis by fastforce
qed

section \<open>Distractors\<close>

text \<open>
  What \<open>get_random_definitions\<close> does guarantee: at most \<open>count\<close> values, pairwise
  distinct, none equal to the correct definition, none null.
\<close>

lemma definitions_query_rows:
  assumes "definitions_query rnd cd n g = Inr (ds, g')"
  shows "length ds \<le> nat n \<and> distinct ds \<and> VStr cd \<notin> set ds \<and> VNull \<notin> set ds \<and>
         set ds \<subseteq> (\<lambda>n. nprops n ''definition'') ` set (nodes g Word) \<and> g' = g"
proof -
  let ?defs = "remdups [nprops n ''definition''. n \<leftarrow> nodes g Word,
                 nprops n ''definition'' \<noteq> VStr cd \<and> nprops n ''definition'' \<noteq> VNull]"
  from assms have n: "0 \<le> n" and ds: "ds = take (nat n) (order_by_rand rnd ?defs)" and "g' = g"
    by (auto simp: definitions_query_def limit_rows_def Let_def split: if_splits)
  have "distinct (order_by_rand rnd ?defs)" by simp
  then have "distinct ds" unfolding ds by (rule distinct_take)
  moreover have "set ds \<subseteq> set ?defs"
    unfolding ds using set_take_subset[of "nat n" "order_by_rand rnd ?defs"] by simp
  moreover have "length ds \<le> nat n" unfolding ds by simp
  ultimately show ?thesis using \<open>g' = g\<close> by auto
qed

lemma distractors_sound:
  assumes "fst (get_random_definitions rnd cd n w) = Inr ds"
  shows "length ds \<le> nat n \<and> distinct ds \<and> VStr cd \<notin> set ds \<and> VNull \<notin> set ds"
proof -
  obtain b w1 where s: "get_session w = (b, w1)" by (cases "get_session w")
  show ?thesis
  proof (cases b)
    case True
    obtain res w2 where run: "session_run (definitions_query rnd cd n) w1 = (res, w2)"
      by (cases "session_run (definitions_query rnd cd n) w1")
    with assms s True have "res = Inr ds" by (simp add: get_random_definitions_def)
    with run have "session_run (definitions_query rnd cd n) w1 = (Inr ds, w2)" by simp
    from session_run_result[OF this]
    obtain g where "definitions_query rnd cd n (store w1) = Inr (ds, g)" by blast
    from definitions_query_rows[OF this] show ?thesis by simp
  next
    case False
    with assms s show ?thesis by (simp add: get_random_definitions_def)
  qed
qed

text \<open>
  Claim C3. The claim adds that no distractor is the empty string. The query guards
  against null only, and the loader stores the definition of a word whose line had no
  definition text as the empty string: on the sample store, with \<open>a fruit\<close> as the correct
  definition and three distractors asked for, the empty string is one of the three
  returned.
\<close>

theorem empty_definition_offered:
  "fst (get_random_definitions id ''a fruit'' 3 game_world) =
     Inr [VStr [], VStr ''stop'', VStr ''an animal'']"
  by code_simp

section \<open>Roots of entries that share a headword\<close>

text \<open>
  Claim C5. \<open>_identify_roots\<close> finds an entry through a dictionary keyed by the
  lower-cased headword, which holds one entry for each key, the last in the list. Of two
  entries with the headword \<open>act\<close> (a word listed for two grades), only the second gets
  the root \<open>act\<close>; the first keeps the empty root although its headword is in the \<open>act\<close>
  family of the table.
\<close>

theorem duplicate_headword_keeps_no_root:
  "map root (identify_roots [parsed ''act'' grade_7a, parsed ''act'' grade_8a]) = [[], ''act'']"
  by code_simp

text \<open>On entries with different headwords the pass does what the claim says: the primary
  label of a combined key is stored, an entry outside the table keeps the empty root, and
  of two families that list a headword the later one wins.\<close>

lemma identify_roots_sample:
  "map root (identify_roots [parsed ''Visit'' grade_7a, parsed ''zoo'' grade_7a]) = [''vis'', []]"
  by code_simp

lemma later_family_wins:
  "map root (identify_roots_in [(''a/b'', [''x'']), (''c'', [''X''])] [parsed ''x'' grade_7a]) = [''c'']"
  by code_simp

section \<open>Queries when the store cannot be reached\<close>

text \<open>
  Claim C6. A query returns its empty result only when no session can be had. The store
  being unreachable from the start, the first query returns the empty list, but
  \<open>connect\<close> has kept the driver it could not verify; the next query gets a session,
  runs its statement and raises. With a driver held and the store unreachable, word
  selection, distractors, words by root, the root catalog and the user lookup all raise,
  while \<open>delete_user\<close>, which catches the exception, returns \<open>False\<close>.
\<close>

theorem query_raises_when_store_is_lost:
  "fst (get_words_for_floor id 1 10 down_world) = Inr [] \<and>
   fst (get_words_for_floor id 1 10 (snd (get_words_for_floor id 1 10 down_world))) =
     Inl ServiceUnavailable \<and>
   fst (get_words_for_floor id 1 10 lost_world) = Inl ServiceUnavailable \<and>
   fst (get_random_definitions id ''a fruit'' 3 lost_world) = Inl ServiceUnavailable \<and>
   fst (get_words_by_root ''act'' lost_world) = Inl ServiceUnavailable \<and>
   fst (get_all_roots lost_world) = Inl ServiceUnavailable \<and>
   fst (get_user_by_id ''bob'' lost_world) = Inl ServiceUnavailable \<and>
   fst (delete_user ''bob'' lost_world) = Inr False"
  by (simp add: get_words_for_floor_def get_random_definitions_def get_words_by_root_def
      get_all_roots_def get_user_by_id_def delete_user_def run_guarded_def get_session_def
      connect_def session_run_def down_world_def lost_world_def game_world_def)

section \<open>Resetting a user\<close>

lemma store_up_driver: "store_up w \<Longrightarrow> store_up (w\<lparr>driver := True\<rparr>)"
  by (simp add: store_up_def)

lemma run_guarded_up:
  assumes "store_up w" and "q (store w) = Inr ((), g)"
  shows "run_guarded q w = (Inr True, w\<lparr>driver := True, store := g\<rparr>)"
  using assms by (simp add: run_guarded_def get_session_up session_run_up store_up_def)

lemma match_set_where:
  assumes "\<And>p. upd p key = p key"
  shows "match_nodes lbl key v (set_where lbl key v upd g) =
         map (\<lambda>n. n\<lparr>nprops := upd (nprops n)\<rparr>) (match_nodes lbl key v g)"
proof -
  have "filter (\<lambda>n. nprops n key = v) (map (apply_set key v upd) xs) =
        map (\<lambda>n. n\<lparr>nprops := upd (nprops n)\<rparr>) (filter (\<lambda>n. nprops n key = v) xs)" for xs
    by (induction xs) (auto simp: apply_set_def assms)
  then show ?thesis by (simp add: match_nodes_def set_where_def)
qed

lemma reset_sets_keys:
  "fst ` set (reset_sets t) =
     {''total_questions'', ''correct_answers'', ''score'', ''current_floor'', ''mastered_count'',
      ''wrong_count'', ''last_active''}"
  by (simp add: reset_sets_def)

lemma reset_values:
  "set_all (reset_sets t) p ''total_questions'' = VInt 0"
  "set_all (reset_sets t) p ''correct_answers'' = VInt 0"
  "set_all (reset_sets t) p ''score'' = VInt 0"
  "set_all (reset_sets t) p ''current_floor'' = VInt 1"
  "set_all (reset_sets t) p ''mastered_count'' = VInt 0"
  "set_all (reset_sets t) p ''wrong_count'' = VInt 0"
  "set_all (reset_sets t) p ''id'' = p ''id''"
  "set_all (reset_sets t) p ''parent_password'' = p ''parent_password''"
  by (simp_all add: set_all_def reset_sets_def)

lemma get_user_by_id_up:
  "store_up w \<Longrightarrow>
   fst (get_user_by_id uid w) = Inr (single (map user_record (match_nodes User ''id'' (VStr uid) (store w))))"
  by (simp add: get_user_by_id_def get_session_up session_run_up user_query_def store_up_def)

lemma get_parent_password_up:
  "store_up w \<Longrightarrow>
   fst (get_parent_password uid w) =
     Inr (case single (map (\<lambda>u. nprops u ''parent_password'') (match_nodes User ''id'' (VStr uid) (store w))) of
            None \<Rightarrow> None
          | Some password \<Rightarrow> if truthy password then Some password else None)"
  by (simp add: get_parent_password_def get_session_up session_run_up password_query_def store_up_def
      split: option.splits)

text \<open>
  Claim C8. With the store up, for a user id that has a \<open>User\<close> node,
  \<open>reset_user_data\<close> returns \<open>True\<close>; the \<open>User\<close> nodes are the same nodes as before, in
  the same order; a node with that id has \<open>total_questions\<close>, \<open>correct_answers\<close>,
  \<open>score\<close>, \<open>mastered_count\<close> and \<open>wrong_count\<close> at 0 and \<open>current_floor\<close> at 1, and
  keeps its \<open>id\<close> and its \<open>parent_password\<close>; on every node, every property other than
  the six counters and \<open>last_active\<close> is unchanged, and a node with another id is
  unchanged altogether; the nodes of the other labels and all relationships are
  unchanged; afterwards \<open>get_user_by_id\<close> returns the user's record with the counters
  reset, and \<open>get_parent_password\<close> returns what it returned before.
\<close>

theorem reset_keeps_user:
  assumes up: "store_up w"
    and ex: "\<exists>u \<in> set (nodes (store w) User). nprops u ''id'' = VStr uid"
  shows "\<exists>w'. reset_user_data uid w = (Inr True, w') \<and>
           length (nodes (store w') User) = length (nodes (store w) User) \<and>
           (\<forall>i < length (nodes (store w) User).
              nid (nodes (store w') User ! i) = nid (nodes (store w) User ! i) \<and>
              (\<forall>k. k \<notin> fst ` set (reset_sets (now w)) \<longrightarrow>
                 nprops (nodes (store w') User ! i) k = nprops (nodes (store w) User ! i) k) \<and>
              (nprops (nodes (store w) User ! i) ''id'' = VStr uid \<longrightarrow>
                 nprops (nodes (store w') User ! i) ''id'' = VStr uid \<and>
                 nprops (nodes (store w') User ! i) ''parent_password'' =
                   nprops (nodes (store w) User ! i) ''parent_password'' \<and>
                 nprops (nodes (store w') User ! i) ''total_questions'' = VInt 0 \<and>
                 nprops (nodes (store w') User ! i) ''correct_answers'' = VInt 0 \<and>
                 nprops (nodes (store w') User ! i) ''score'' = VInt 0 \<and>
                 nprops (nodes (store w') User ! i) ''mastered_count'' = VInt 0 \<and>
                 nprops (nodes (store w') User ! i) ''wrong_count'' = VInt 0 \<and>
                 nprops (nodes (store w') User ! i) ''current_floor'' = VInt 1) \<and>
              (nprops (nodes (store w) User ! i) ''id'' \<noteq> VStr uid \<longrightarrow>
                 nodes (store w') User ! i = nodes (store w) User ! i)) \<and>
           (\<forall>l. l \<noteq> User \<longrightarrow> nodes (store w') l = nodes (store w) l) \<and>
           edges (store w') = edges (store w) \<and>
           (\<exists>row. fst (get_user_by_id uid w') = Inr (Some row) \<and>
              map_of row ''user_id'' = Some (VStr uid) \<and>
              map_of row ''total_questions'' = Some (VInt 0) \<and>
              map_of row ''correct_answers'' = Some (VInt 0) \<and>
              map_of row ''score'' = Some (VInt 0) \<and>
              map_of row ''current_floor'' = Some (VInt 1) \<and>
              map_of row ''mastered_count'' = Some (VInt 0) \<and>
              map_of row ''wrong_count'' = Some (VInt 0)) \<and>
           fst (get_parent_password uid w') = fst (get_parent_password uid w)"
proof -
  let ?upd = "set_all (reset_sets (now w))"
  let ?g = "set_where User ''id'' (VStr uid) ?upd (store w)"
  let ?w' = "w\<lparr>driver := True, store := ?g\<rparr>"
  let ?us = "nodes (store w) User"
  have run: "reset_user_data uid w = (Inr True, ?w')"
    unfolding reset_user_data_def by (rule run_guarded_up[OF up]) (simp add: reset_query_def)
  have up': "store_up ?w'" using up by (simp add: store_up_def)
  have users: "nodes ?g User = map (apply_set ''id'' (VStr uid) ?upd) ?us"
    by (simp add: set_where_def)
  have others: "\<forall>l. l \<noteq> User \<longrightarrow> nodes (store ?w') l = nodes (store w) l"
    by (simp add: set_where_def)
  have edges: "edges (store ?w') = edges (store w)"
    by (simp add: set_where_def)
  have keep: "?upd p ''id'' = p ''id''" for p by (rule reset_values)
  have m: "match_nodes User ''id'' (VStr uid) ?g =
           map (\<lambda>n. n\<lparr>nprops := ?upd (nprops n)\<rparr>) (match_nodes User ''id'' (VStr uid) (store w))"
    using match_set_where[of ?upd "''id''" User "VStr uid" "store w"] keep by simp
  from ex obtain u us where mu: "match_nodes User ''id'' (VStr uid) (store w) = u # us"
    by (cases "match_nodes User ''id'' (VStr uid) (store w)")
       (auto simp: match_nodes_def filter_empty_conv)
  then have "u \<in> set (match_nodes User ''id'' (VStr uid) (store w))" by simp
  then have uid: "nprops u ''id'' = VStr uid" by (simp add: match_nodes_def)
  let ?row = "user_record (u\<lparr>nprops := ?upd (nprops u)\<rparr>)"
  have row: "fst (get_user_by_id uid ?w') = Inr (Some ?row)"
    by (simp add: get_user_by_id_up[OF up'] m mu single_def)
  have rowv: "map_of ?row ''user_id'' = Some (VStr uid)"
    "map_of ?row ''total_questions'' = Some (VInt 0)"
    "map_of ?row ''correct_answers'' = Some (VInt 0)"
    "map_of ?row ''score'' = Some (VInt 0)"
    "map_of ?row ''current_floor'' = Some (VInt 1)"
    "map_of ?row ''mastered_count'' = Some (VInt 0)"
    "map_of ?row ''wrong_count'' = Some (VInt 0)"
    by (simp_all add: user_record_def reset_values uid)
  have pw: "fst (get_parent_password uid ?w') = fst (get_parent_password uid w)"
    by (simp add: get_parent_password_up[OF up'] get_parent_password_up[OF up] m o_def reset_values)
  have each: "nid (nodes (store ?w') User ! i) = nid (?us ! i) \<and>
              (\<forall>k. k \<notin> fst ` set (reset_sets (now w)) \<longrightarrow>
                 nprops (nodes (store ?w') User ! i) k = nprops (?us ! i) k) \<and>
              (nprops (?us ! i) ''id'' = VStr uid \<longrightarrow>
                 nprops (nodes (store ?w') User ! i) ''id'' = VStr uid \<and>
                 nprops (nodes (store ?w') User ! i) ''parent_password'' =
                   nprops (?us ! i) ''parent_password'' \<and>
                 nprops (nodes (store ?w') User ! i) ''total_questions'' = VInt 0 \<and>
                 nprops (nodes (store ?w') User ! i) ''correct_answers'' = VInt 0 \<and>
                 nprops (nodes (store ?w') User ! i) ''score'' = VInt 0 \<and>
                 nprops (nodes (store ?w') User ! i) ''mastered_count'' = VInt 0 \<and>
                 nprops (nodes (store ?w') User ! i) ''wrong_count'' = VInt 0 \<and>
                 nprops (nodes (store ?w') User ! i) ''current_floor'' = VInt 1) \<and>
              (nprops (?us ! i) ''id'' \<noteq> VStr uid \<longrightarrow> nodes (store ?w') User ! i = ?us ! i)"
    if "i < length ?us" for i
    using that by (simp add: users apply_set_def reset_values set_all_other)
  show ?thesis
    apply (rule exI[of _ ?w'])
    apply (intro conjI)
          apply (rule run)
         apply (simp add: users)
    using each apply blast
       apply (rule others)
      apply (rule edges)
    using row rowv apply blast
    apply (rule pw)
    done
qed

text \<open>Resetting \<open>bob\<close>, whose score was 500.\<close>

theorem reset_keeps_user_witness:
  "store_up game_world \<and>
   (\<exists>u \<in> set (nodes (store game_world) User). nprops u ''id'' = VStr ''bob'' \<and> nprops u ''score'' = VInt 500) \<and>
   fst (reset_user_data ''bob'' game_world) = Inr True \<and>
   (\<exists>row. fst (get_user_by_id ''bob'' (snd (reset_user_data ''bob'' game_world))) = Inr (Some row) \<and>
      map_of row ''user_id'' = Some (VStr ''bob'') \<and>
      map_of row ''score'' = Some (VInt 0) \<and>
      map_of row ''current_floor'' = Some (VInt 1)) \<and>
   fst (get_parent_password ''bob'' (snd (reset_user_data ''bob'' game_world))) =
     Inr (Some (VStr ''secret''))"
proof -
  have u: "\<exists>u \<in> set (nodes (store game_world) User). nprops u ''id'' = VStr ''bob'' \<and> nprops u ''score'' = VInt 500"
    by (simp add: game_world_def game_store_def props_of_def set_all_def)
  then have ex: "\<exists>u \<in> set (nodes (store game_world) User). nprops u ''id'' = VStr ''bob''"
    by blast
  have p: "fst (get_parent_password ''bob'' game_world) = Inr (Some (VStr ''secret''))"
    by (simp add: get_parent_password_up[OF game_world_up] match_nodes_def single_def)
       (simp add: game_world_def game_store_def props_of_def set_all_def)
  from reset_keeps_user[OF game_world_up ex] obtain w' where
    r: "reset_user_data ''bob'' game_world = (Inr True, w')"
    and g: "\<exists>row. fst (get_user_by_id ''bob'' w') = Inr (Some row) \<and>
              map_of row ''user_id'' = Some (VStr ''bob'') \<and>
              map_of row ''total_questions'' = Some (VInt 0) \<and>
              map_of row ''correct_answers'' = Some (VInt 0) \<and>
              map_of row ''score'' = Some (VInt 0) \<and>
              map_of row ''current_floor'' = Some (VInt 1) \<and>
              map_of row ''mastered_count'' = Some (VInt 0) \<and>
              map_of row ''wrong_count'' = Some (VInt 0)"
    and q: "fst (get_parent_password ''bob'' w') = fst (get_parent_password ''bob'' game_world)"
    by blast
  from g obtain row where "fst (get_user_by_id ''bob'' w') = Inr (Some row)"
    "map_of row ''user_id'' = Some (VStr ''bob'')" "map_of row ''score'' = Some (VInt 0)"
    "map_of row ''current_floor'' = Some (VInt 1)" by blast
  with game_world_up u r q p show ?thesis by auto
qed

section \<open>The parent password\<close>

text \<open>
  Claim C10. With the store up, \<open>get_parent_password\<close> returns \<open>None\<close> when no \<open>User\<close>
  node has the id and when the node stores the empty string as \<open>parent_password\<close>; the
  parent login of that student then succeeds on the built-in parent password and on no
  other; and setting the parent password to the empty string leaves
  \<open>get_parent_password\<close> returning \<open>None\<close>, as if none had been set.
\<close>

theorem empty_parent_password_is_none:
  assumes up: "store_up w"
    and pw: "match_nodes User ''id'' (VStr uid) (store w) = [] \<or>
             (\<forall>u \<in> set (match_nodes User ''id'' (VStr uid) (store w)). nprops u ''parent_password'' = VStr [])"
  shows "fst (get_parent_password uid w) = Inr None \<and>
         (uid \<noteq> [] \<longrightarrow>
            fst (parent_login uid password w) =
              Inr (if password = ADMIN_PASSWORD_parent then ParentDashboard uid else PasswordError)) \<and>
         fst (get_parent_password uid (snd (set_parent_password uid [] w))) = Inr None"
proof -
  let ?m = "match_nodes User ''id'' (VStr uid) (store w)"
  have none: "fst (get_parent_password uid w) = Inr None"
  proof (cases ?m)
    case Nil
    then show ?thesis by (simp add: get_parent_password_up[OF up] single_def)
  next
    case (Cons u us)
    with pw have "nprops u ''parent_password'' = VStr []" by auto
    with Cons show ?thesis by (simp add: get_parent_password_up[OF up] single_def)
  qed
  obtain w1 where g: "get_parent_password uid w = (Inr None, w1)"
    using none by (cases "get_parent_password uid w") auto
  have login: "uid \<noteq> [] \<longrightarrow>
            fst (parent_login uid password w) =
              Inr (if password = ADMIN_PASSWORD_parent then ParentDashboard uid else PasswordError)"
    by (simp add: parent_login_def g)
  let ?upd = "set_all [(''parent_password'', VStr [])]"
  let ?g = "upsert User ''id'' (VStr uid) ?upd (store w)"
  let ?w' = "w\<lparr>driver := True, store := ?g\<rparr>"
  have set: "set_parent_password uid [] w = (Inr True, ?w')"
    unfolding set_parent_password_def
    by (rule run_guarded_up[OF up]) (simp add: set_password_query_def)
  have up': "store_up ?w'" using up by (simp add: store_up_def)
  have "\<forall>u \<in> set (match_nodes User ''id'' (VStr uid) ?g). nprops u ''parent_password'' = VStr []"
    by (auto simp: match_nodes_def upsert_nodes_same apply_set_def set_all_def split: if_splits)
  then have "fst (get_parent_password uid ?w') = Inr None"
    by (cases "match_nodes User ''id'' (VStr uid) ?g")
       (auto simp: get_parent_password_up[OF up'] single_def)
  with none login show ?thesis by (simp add: set)
qed

text \<open>No node for \<open>zoe\<close>; \<open>amy\<close> stores the empty string; \<open>bob\<close> after his password is
  set to the empty string.\<close>

theorem empty_parent_password_is_none_witness:
  "store_up game_world \<and>
   match_nodes User ''id'' (VStr ''zoe'') (store game_world) = [] \<and>
   fst (get_parent_password ''zoe'' game_world) = Inr None \<and>
   (\<exists>u \<in> set (match_nodes User ''id'' (VStr ''amy'') (store game_world)).
      nprops u ''parent_password'' = VStr []) \<and>
   fst (get_parent_password ''amy'' game_world) = Inr None \<and>
   fst (parent_login ''amy'' ADMIN_PASSWORD_parent game_world) = Inr (ParentDashboard ''amy'') \<and>
   fst (parent_login ''amy'' [] game_world) = Inr PasswordError \<and>
   fst (get_parent_password ''bob'' (snd (set_parent_password ''bob'' [] game_world))) = Inr None"
proof -
  have z: "match_nodes User ''id'' (VStr ''zoe'') (store game_world) = []"
    by (simp add: match_nodes_def game_world_def game_store_def props_of_def set_all_def)
  have a: "match_nodes User ''id'' (VStr ''amy'') (store game_world) =
             [\<lparr>nid = 8, nprops = props_of [(''id'', VStr ''amy''), (''score'', VInt 20),
                     (''parent_password'', VStr [])]\<rparr>]"
    by (simp add: match_nodes_def game_world_def game_store_def props_of_def set_all_def)
  have a1: "\<exists>u \<in> set (match_nodes User ''id'' (VStr ''amy'') (store game_world)).
      nprops u ''parent_password'' = VStr []"
    by (simp add: a) (simp add: props_of_def set_all_def)
  have a2: "match_nodes User ''id'' (VStr ''amy'') (store game_world) = [] \<or>
        (\<forall>u \<in> set (match_nodes User ''id'' (VStr ''amy'') (store game_world)).
      nprops u ''parent_password'' = VStr [])"
    by (simp add: a) (simp add: props_of_def set_all_def)
  have adm: "[] \<noteq> ADMIN_PASSWORD_parent" by (simp add: ADMIN_PASSWORD_parent_def)
  from empty_parent_password_is_none[OF game_world_up, of "''zoe''" "[]"] z
  have r1: "fst (get_parent_password ''zoe'' game_world) = Inr None" by simp
  from empty_parent_password_is_none[OF game_world_up a2, of ADMIN_PASSWORD_parent]
  have r2: "fst (get_parent_password ''amy'' game_world) = Inr None"
    "fst (parent_login ''amy'' ADMIN_PASSWORD_parent game_world) = Inr (ParentDashboard ''amy'')"
    by simp_all
  from empty_parent_password_is_none[OF game_world_up a2, of "[]"] adm
  have r3: "fst (parent_login ''amy'' [] game_world) = Inr PasswordError" by simp
  have r4: "fst (get_parent_password ''bob'' (snd (set_parent_password ''bob'' [] game_world))) = Inr None"
    by code_simp
  from game_world_up z a1 r1 r2 r3 r4 show ?thesis by blast
qed

section \<open>Deleting users\<close>







section \<open>Replacing the prizes of a type\<close>

lemma create_prize_query_add:
  "complete_prize p \<Longrightarrow>
   create_prize_query (the (map_of p ''name'')) (the (map_of p ''description''))
     (the (map_of p ''weight'')) t g = Inr ((), add_prize t p g)"
  by (simp add: create_prize_query_def add_prize_def requested_def)

lemma requested_props:
  "props_of (requested t p) ''type'' = VStr t"
  "prize_view \<lparr>nid = i, nprops = props_of (requested t p)\<rparr> = requested t p"
  by (simp_all add: props_of_def set_all_def requested_def prize_view_def)

lemma add_prize_frame:
  "l \<noteq> Prize \<Longrightarrow> nodes (add_prize t p g) l = nodes g l"
  "edges (add_prize t p g) = edges g"
  "other_prizes t (add_prize t p g) = other_prizes t g"
  "saved_prizes t (add_prize t p g) = saved_prizes t g @ [requested t p]"
  by (simp_all add: add_prize_def other_prizes_def saved_prizes_def match_nodes_def requested_props)

lemma fold_add_prize_frame:
  "l \<noteq> Prize \<Longrightarrow> nodes (fold (add_prize t) ps g) l = nodes g l"
  "edges (fold (add_prize t) ps g) = edges g"
  "other_prizes t (fold (add_prize t) ps g) = other_prizes t g"
  "saved_prizes t (fold (add_prize t) ps g) = saved_prizes t g @ map (requested t) ps"
  by (induction ps arbitrary: g) (simp_all add: add_prize_frame)

lemma session_run_some:
  "serves w = Some (Suc k) \<Longrightarrow> q (store w) = Inr (a, g) \<Longrightarrow>
   session_run q w = (Inr a, w\<lparr>serves := Some k, store := g\<rparr>)"
  by (simp add: session_run_def)

lemma session_run_none:
  "serves w = None \<Longrightarrow> q (store w) = Inr (a, g) \<Longrightarrow> session_run q w = (Inr a, w\<lparr>store := g\<rparr>)"
  by (simp add: session_run_def)

lemma session_run_down: "serves w = Some 0 \<Longrightarrow> session_run q w = (Inl ServiceUnavailable, w)"
  by (simp add: session_run_def)

lemma create_prizes_run:
  assumes "\<forall>p \<in> set prizes. complete_prize p"
  shows "\<exists>w'. create_prizes prizes t w =
           (if serves w = None \<or> (\<exists>k. serves w = Some k \<and> length prizes \<le> k) then Inr ()
            else Inl ServiceUnavailable, w') \<and>
         store w' = fold (add_prize t)
                      (case serves w of None \<Rightarrow> prizes | Some k \<Rightarrow> take k prizes) (store w)"
  using assms
proof (induction prizes arbitrary: w)
  case Nil
  then show ?case by (cases "serves w") auto
next
  case (Cons p ps)
  then have cp: "complete_prize p" and cps: "\<forall>p \<in> set ps. complete_prize p" by simp_all
  from cp obtain n d wt where f: "map_of p ''name'' = Some n" "map_of p ''description'' = Some d"
    "map_of p ''weight'' = Some wt"
    by (auto simp: complete_prize_def)
  have q: "create_prize_query n d wt t (store w) = Inr ((), add_prize t p (store w))"
    using create_prize_query_add[OF cp, of t "store w"] f by simp
  show ?case
  proof (cases "serves w")
    case None
    let ?w1 = "w\<lparr>store := add_prize t p (store w)\<rparr>"
    have s: "session_run (create_prize_query n d wt t) w = (Inr (), ?w1)"
      using None q by (simp add: session_run_none)
    from Cons.IH[OF cps, of ?w1] None s f show ?thesis by simp
  next
    case (Some k)
    show ?thesis
    proof (cases k)
      case 0
      with Some have "session_run (create_prize_query n d wt t) w = (Inl ServiceUnavailable, w)"
        by (simp add: session_run_down)
      with Some 0 f show ?thesis by simp
    next
      case (Suc j)
      let ?w1 = "w\<lparr>serves := Some j, store := add_prize t p (store w)\<rparr>"
      have s: "session_run (create_prize_query n d wt t) w = (Inr (), ?w1)"
        using Some Suc q by (simp add: session_run_some)
      from Cons.IH[OF cps, of ?w1] Some Suc s f show ?thesis by simp
    qed
  qed
qed

lemma delete_typed_prizes:
  assumes "\<not> (\<exists>p \<in> set (match_nodes Prize ''type'' (VStr t) g). has_relationship g p)"
  shows "\<exists>gd. delete_where Prize (\<lambda>p. nprops p ''type'' = VStr t) g = Inr ((), gd) \<and>
           saved_prizes t gd = [] \<and> other_prizes t gd = other_prizes t g \<and>
           (\<forall>l. l \<noteq> Prize \<longrightarrow> nodes gd l = nodes g l) \<and> edges gd = edges g"
  using assms
  by (auto simp: delete_where_def match_nodes_def saved_prizes_def other_prizes_def filter_empty_conv)

text \<open>
  Claim C7, as amended. \<open>save_custom_prizes\<close> runs one \<open>DELETE\<close> statement and then one
  \<open>CREATE\<close> statement for each prize, each committed on its own. Given a session,
  prizes that carry the three keys and no relationship on a prize of the type: when the
  store answers all the statements, the prizes of the type are exactly the list given, in
  order; when the store answers none, the call raises and the store is unchanged; when
  the store answers the \<open>DELETE\<close> and only \<open>k\<close> of the \<open>CREATE\<close> statements, the call
  raises and the prizes of the type are the first \<open>k\<close> of the list, the old ones being
  gone. In every case the prizes of the other types, the nodes of the other labels and
  the relationships are unchanged.
\<close>

theorem save_custom_prizes_steps:
  assumes sess: "get_session w = (True, w1)"
    and complete: "\<forall>p \<in> set prizes. complete_prize p"
    and free: "\<not> (\<exists>p \<in> set (match_nodes Prize ''type'' (VStr t) (store w)). has_relationship (store w) p)"
    and run: "save_custom_prizes prizes t w = (res, w')"
  shows "(serves w1 = None \<or> (\<exists>k. serves w1 = Some k \<and> length prizes < k) \<longrightarrow>
            res = Inr () \<and> saved_prizes t (store w') = map (requested t) prizes) \<and>
         (serves w1 = Some 0 \<longrightarrow> res = Inl ServiceUnavailable \<and> store w' = store w) \<and>
         (\<forall>k. serves w1 = Some (Suc k) \<and> k < length prizes \<longrightarrow>
            res = Inl ServiceUnavailable \<and>
            saved_prizes t (store w') = map (requested t) (take k prizes)) \<and>
         (\<forall>l. l \<noteq> Prize \<longrightarrow> nodes (store w') l = nodes (store w) l) \<and>
         edges (store w') = edges (store w) \<and>
         other_prizes t (store w') = other_prizes t (store w)"
proof -
  let ?q = "delete_where Prize (\<lambda>p. nprops p ''type'' = VStr t)"
  have st: "store w1 = store w" using get_session_cases[OF sess] by simp
  from delete_typed_prizes[OF free] obtain gd where
    del: "?q (store w) = Inr ((), gd)" and sv: "saved_prizes t gd = []"
    and ot: "other_prizes t gd = other_prizes t (store w)"
    and nd: "\<forall>l. l \<noteq> Prize \<longrightarrow> nodes gd l = nodes (store w) l" and ed: "edges gd = edges (store w)"
    by blast
  have run': "save_custom_prizes prizes t w =
                (case session_run ?q w1 of
                   (Inl e, w2) \<Rightarrow> (Inl e, w2)
                 | (Inr u, w2) \<Rightarrow> create_prizes prizes t w2)"
    by (simp add: save_custom_prizes_def sess)
  show ?thesis
  proof (cases "serves w1")
    case None
    let ?w2 = "w1\<lparr>store := gd\<rparr>"
    have "session_run ?q w1 = (Inr (), ?w2)"
      using None del st by (simp add: session_run_none)
    with run run' have c: "create_prizes prizes t ?w2 = (res, w')" by simp
    from create_prizes_run[OF complete, of t ?w2] c None
    have "res = Inr ()" "store w' = fold (add_prize t) prizes gd" by auto
    then show ?thesis
      using None by (simp add: fold_add_prize_frame sv ot nd ed)
  next
    case (Some k)
    show ?thesis
    proof (cases k)
      case 0
      with Some have "session_run ?q w1 = (Inl ServiceUnavailable, w1)"
        by (simp add: session_run_down)
      with run run' have "res = Inl ServiceUnavailable" "w' = w1" by simp_all
      then show ?thesis using Some 0 st by simp
    next
      case (Suc j)
      let ?w2 = "w1\<lparr>serves := Some j, store := gd\<rparr>"
      have "session_run ?q w1 = (Inr (), ?w2)"
        using Some Suc del st by (simp add: session_run_some)
      with run run' have c: "create_prizes prizes t ?w2 = (res, w')" by simp
      from create_prizes_run[OF complete, of t ?w2] c
      have r: "res = (if length prizes \<le> j then Inr () else Inl ServiceUnavailable)"
        and s: "store w' = fold (add_prize t) (take j prizes) gd" by auto
      show ?thesis
        using Some Suc r s by (auto simp: fold_add_prize_frame sv ot nd ed)
    qed
  qed
qed

text \<open>All statements answered, and the connection lost after the first \<open>CREATE\<close>.\<close>

theorem save_custom_prizes_steps_witness:
  "get_session game_world = (True, game_world\<lparr>driver := True\<rparr>) \<and>
   fst (save_custom_prizes new_prizes ''parent'' game_world) = Inr () \<and>
   saved_prizes ''parent'' (store (snd (save_custom_prizes new_prizes ''parent'' game_world))) =
     map (requested ''parent'') new_prizes \<and>
   get_session drop_world = (True, drop_world) \<and>
   fst (save_custom_prizes new_prizes ''parent'' drop_world) = Inl ServiceUnavailable \<and>
   saved_prizes ''parent'' (store (snd (save_custom_prizes new_prizes ''parent'' drop_world))) =
     map (requested ''parent'') (take 1 new_prizes)"
proof -
  have s1: "get_session game_world = (True, game_world\<lparr>driver := True\<rparr>)"
    by (rule get_session_up[OF game_world_up])
  have s2: "get_session drop_world = (True, drop_world)"
    by (simp add: get_session_def connect_def drop_world_def)
  have c: "\<forall>p \<in> set new_prizes. complete_prize p"
    by (simp add: new_prizes_def complete_prize_def)
  have f1: "\<not> (\<exists>p \<in> set (match_nodes Prize ''type'' (VStr ''parent'') (store game_world)).
              has_relationship (store game_world) p)"
    by (auto simp: match_nodes_def game_world_def game_store_def has_relationship_def all_rels_def)
  have f2: "\<not> (\<exists>p \<in> set (match_nodes Prize ''type'' (VStr ''parent'') (store drop_world)).
              has_relationship (store drop_world) p)"
    using f1 by (simp add: drop_world_def)
  have v1: "serves (game_world\<lparr>driver := True\<rparr>) = None" by (simp add: game_world_def)
  have v2: "serves drop_world = Some (Suc 1)" "1 < length new_prizes"
    by (simp_all add: drop_world_def new_prizes_def)
  from save_custom_prizes_steps[OF s1 c f1, of "fst (save_custom_prizes new_prizes ''parent'' game_world)"
      "snd (save_custom_prizes new_prizes ''parent'' game_world)"] v1
  have a: "fst (save_custom_prizes new_prizes ''parent'' game_world) = Inr () \<and>
   saved_prizes ''parent'' (store (snd (save_custom_prizes new_prizes ''parent'' game_world))) =
     map (requested ''parent'') new_prizes" by simp
  from save_custom_prizes_steps[OF s2 c f2, of "fst (save_custom_prizes new_prizes ''parent'' drop_world)"
      "snd (save_custom_prizes new_prizes ''parent'' drop_world)"] v2
  have b: "fst (save_custom_prizes new_prizes ''parent'' drop_world) = Inl ServiceUnavailable \<and>
   saved_prizes ''parent'' (store (snd (save_custom_prizes new_prizes ''parent'' drop_world))) =
     map (requested ''parent'') (take 1 new_prizes)" by simp
  from s1 s2 a b show ?thesis by simp
qed

text \<open>
  The claim as stated (an indivisible effect) fails: with the connection lost after two
  statements, the call raises and leaves the parent prizes as neither the old list nor
  the new one, but the first prize of the new list alone.
\<close>

theorem save_custom_prizes_not_atomic:
  "saved_prizes ''parent'' (store drop_world) =
     [[(''name'', VStr ''sticker''), (''description'', VStr ''one sticker''), (''weight'', VInt 10),
       (''type'', VStr ''parent'')]] \<and>
   map (requested ''parent'') new_prizes =
     [[(''name'', VStr ''cake''), (''description'', VStr ''a cake''), (''weight'', VInt 20),
       (''type'', VStr ''parent'')],
      [(''name'', VStr ''toy''), (''description'', VStr ''a toy''), (''weight'', VInt 5),
       (''type'', VStr ''parent'')]] \<and>
   fst (save_custom_prizes new_prizes ''parent'' drop_world) = Inl ServiceUnavailable \<and>
   saved_prizes ''parent'' (store (snd (save_custom_prizes new_prizes ''parent'' drop_world))) =
     [[(''name'', VStr ''cake''), (''description'', VStr ''a cake''), (''weight'', VInt 20),
       (''type'', VStr ''parent'')]]"
  by code_simp

end
